theory Spec2Isabelle
  imports Main "HOL-Library.Sublist"
begin

section \<open>C strings and line input\<close>

text \<open>
  The configuration file is a sequence of bytes (\<^typ>\<open>string\<close>).  The program of
  \<^verbatim>\<open>src/web_config.c\<close> reads it with \<^verbatim>\<open>fgets(line, sizeof(line), fp)\<close> into
  \<^verbatim>\<open>char line[512]\<close>: one call takes bytes up to and including the next newline, but at
  most 511 of them.  The buffer is then used as a C string, which ends at its first NUL
  byte.
\<close>

definition cstr :: "string \<Rightarrow> string" where
  "cstr bytes = takeWhile (\<lambda>c. c \<noteq> CHR 0x00) bytes"

fun fgets :: "nat \<Rightarrow> string \<Rightarrow> string \<times> string" where
  "fgets n s =
     (if n = 0 then ([], s)
      else (case s of
              [] \<Rightarrow> ([], [])
            | c # s' \<Rightarrow>
                if c = CHR 0x0A then ([c], s')
                else (case fgets (n - 1) s' of (l, r) \<Rightarrow> (c # l, r))))"

declare fgets.simps [simp del]

lemma fgets_0 [simp]: "fgets 0 s = ([], s)"
  by (simp add: fgets.simps)

lemma fgets_Nil [simp]: "fgets n [] = ([], [])"
  by (simp add: fgets.simps)

lemma fgets_Cons [simp]:
  "0 < n \<Longrightarrow> fgets n (c # s) =
     (if c = CHR 0x0A then ([c], s) else (case fgets (n - 1) s of (l, r) \<Rightarrow> (c # l, r)))"
  by (subst fgets.simps) simp

lemma fgets_length: "fgets n s = (l, r) \<Longrightarrow> length r \<le> length s"
proof (induction s arbitrary: n l r)
  case Nil
  then show ?case by simp
next
  case (Cons c s)
  show ?case
  proof (cases "n = 0")
    case True
    with Cons.prems show ?thesis by simp
  next
    case False
    then have n: "0 < n" by simp
    show ?thesis
    proof (cases "c = CHR 0x0A")
      case True
      with n Cons.prems show ?thesis by simp
    next
      case False
      obtain l' r' where f: "fgets (n - 1) s = (l', r')" by (cases "fgets (n - 1) s")
      with False n Cons.prems have "r = r'" by simp
      with Cons.IH[OF f] show ?thesis by simp
    qed
  qed
qed

lemma fgets_shorter:
  assumes "s \<noteq> []" and "0 < n" and "fgets n s = (l, r)"
  shows "length r < length s"
proof -
  obtain c s' where s: "s = c # s'" using assms(1) by (cases s) auto
  show ?thesis
  proof (cases "c = CHR 0x0A")
    case True
    with assms s show ?thesis by simp
  next
    case False
    obtain l' r' where f: "fgets (n - 1) s' = (l', r')" by (cases "fgets (n - 1) s'")
    with assms s False have "r = r'" by simp
    with fgets_length[OF f] s show ?thesis by simp
  qed
qed

text \<open>The loop \<^verbatim>\<open>while (fgets(line, sizeof(line), fp))\<close>: the successive buffers.\<close>

function read_lines :: "string \<Rightarrow> string list" where
  "read_lines s =
     (if s = [] then [] else (case fgets 511 s of (l, r) \<Rightarrow> l # read_lines r))"
  by pat_completeness auto
termination
  by (relation "measure length") (auto intro: fgets_shorter[OF _ _ sym, of _ 511])

declare read_lines.simps [simp del]

definition file_lines :: "string \<Rightarrow> string list" where
  "file_lines content = map cstr (read_lines content)"

text \<open>
  \<^verbatim>\<open>trim_string\<close>: skip leading blanks and tabs, then cut trailing blanks, tabs,
  carriage returns and newlines.
\<close>

definition is_lead :: "char \<Rightarrow> bool" where
  "is_lead c \<longleftrightarrow> c = CHR '' '' \<or> c = CHR 0x09"

definition is_trail :: "char \<Rightarrow> bool" where
  "is_trail c \<longleftrightarrow> c = CHR '' '' \<or> c = CHR 0x09 \<or> c = CHR 0x0D \<or> c = CHR 0x0A"

definition trim_string :: "string \<Rightarrow> string" where
  "trim_string str = rev (dropWhile is_trail (rev (dropWhile is_lead str)))"

text \<open>\<^verbatim>\<open>line[0] == '['\<close>\<close>

definition is_header :: "string \<Rightarrow> bool" where
  "is_header line = (case line of [] \<Rightarrow> False | c # _ \<Rightarrow> c = CHR ''['')"

text \<open>
  \<^verbatim>\<open>sscanf(line, "[%127[^]]]", current_section)\<close> on a line that starts with an opening
  bracket: the scan set takes the bytes up to the first closing bracket, at most 127 of
  them.  When it matches no byte the conversion fails and \<^verbatim>\<open>current_section\<close> keeps its
  old content.
\<close>

definition sscanf_section :: "string \<Rightarrow> string \<Rightarrow> string" where
  "sscanf_section line current =
     (let name = take 127 (takeWhile (\<lambda>c. c \<noteq> CHR '']'') (tl line))
      in if name = [] then current else name)"

text \<open>
  The key of a line that contains an equals sign: the bytes before the first one, copied
  with \<^verbatim>\<open>strncpy(file_key, temp_line, sizeof(file_key)-1)\<close> and trimmed.  \<^verbatim>\<open>strncpy\<close>
  copies at most 127 bytes; the model reads exactly these when the prefix is longer (the
  source leaves \<^verbatim>\<open>file_key[127]\<close> unwritten in that case).
\<close>

definition has_eq :: "string \<Rightarrow> bool" where
  "has_eq line \<longleftrightarrow> CHR ''='' \<in> set line"

definition file_key :: "string \<Rightarrow> string" where
  "file_key line = trim_string (take 127 (takeWhile (\<lambda>c. c \<noteq> CHR ''='') line))"

section \<open>Batch update of the document\<close>

record ConfigEntry =
  "section" :: string
  "key" :: string
  "value" :: string
  updated :: bool

text \<open>\<^verbatim>\<open>fprintf(out, "%s = %s\n", key, value)\<close>\<close>

definition key_value_line :: "string \<Rightarrow> string \<Rightarrow> string" where
  "key_value_line k v = k @ '' = '' @ v @ ''\<newline>''"

text \<open>\<^verbatim>\<open>fprintf(out, "\n[%s]\n%s = %s\n", section, key, value)\<close>\<close>

definition new_section_text :: "string \<Rightarrow> string \<Rightarrow> string \<Rightarrow> string" where
  "new_section_text s k v = ''\<newline>['' @ s @ '']\<newline>'' @ key_value_line k v"

text \<open>
  The loop that appends the entries of section \<open>sec\<close> that are not yet written, and marks
  them (lines 842-847, 890-895 and 905-910 of \<^verbatim>\<open>write_config_batch\<close>).
\<close>

fun append_missing_keys :: "string \<Rightarrow> ConfigEntry list \<Rightarrow> string list \<times> ConfigEntry list" where
  "append_missing_keys sec [] = ([], [])"
| "append_missing_keys sec (e # es) =
     (case append_missing_keys sec es of
        (out, es') \<Rightarrow>
          if \<not> updated e \<and> section e = sec
          then (key_value_line (key e) (value e) # out, e\<lparr>updated := True\<rparr> # es')
          else (out, e # es'))"

text \<open>The search for the first entry of the current section with the key of the line.\<close>

fun find_match :: "string \<Rightarrow> string \<Rightarrow> ConfigEntry list \<Rightarrow> nat option" where
  "find_match sec k [] = None"
| "find_match sec k (e # es) =
     (if section e = sec \<and> key e = k then Some 0
      else map_option Suc (find_match sec k es))"

record batch_state =
  in_section :: bool
  current_section :: string
  entries :: "ConfigEntry list"

text \<open>The body of the \<^verbatim>\<open>while\<close> loop of \<^verbatim>\<open>write_config_batch\<close>, with what it writes.\<close>

definition batch_line :: "batch_state \<Rightarrow> string \<Rightarrow> string list \<times> batch_state" where
  "batch_line st line =
     (if is_header line then
        (case (if in_section st then append_missing_keys (current_section st) (entries st)
               else ([], entries st)) of
           (out, es) \<Rightarrow>
             (out @ [line],
              \<lparr>in_section = True,
               current_section = trim_string (sscanf_section line (current_section st)),
               entries = es\<rparr>))
      else if in_section st \<and> has_eq line then
        (case find_match (current_section st) (file_key line) (entries st) of
           Some i \<Rightarrow>
             ([key_value_line (key (entries st ! i)) (value (entries st ! i))],
              st\<lparr>entries := (entries st)[i := (entries st ! i)\<lparr>updated := True\<rparr>]\<rparr>)
         | None \<Rightarrow> ([line], st))
      else ([line], st))"

fun batch_loop :: "batch_state \<Rightarrow> string list \<Rightarrow> string list \<times> batch_state" where
  "batch_loop st [] = ([], st)"
| "batch_loop st (line # lines) =
     (case batch_line st line of
        (out1, st1) \<Rightarrow>
          (case batch_loop st1 lines of (out2, st2) \<Rightarrow> (out1 @ out2, st2)))"

text \<open>The entries whose section never occurred (lines 899-912).\<close>

lemma append_missing_keys_length [simp]:
  "length (snd (append_missing_keys sec es)) = length es"
  by (induction es) (auto split: prod.splits)

function missing_sections :: "ConfigEntry list \<Rightarrow> string list" where
  "missing_sections [] = []"
| "missing_sections (e # es) =
     (if updated e then missing_sections es
      else (case append_missing_keys (section e) es of
              (out, es') \<Rightarrow>
                new_section_text (section e) (key e) (value e) # out @ missing_sections es'))"
  by pat_completeness auto
termination
  by (relation "measure length")
     (auto dest: arg_cong[where f = "\<lambda>p. length (snd p)"])

text \<open>What \<^verbatim>\<open>write_config_batch\<close> writes to the temporary file, piece by piece.\<close>

definition batch_pieces :: "ConfigEntry list \<Rightarrow> string \<Rightarrow> string list" where
  "batch_pieces es content =
     (case batch_loop \<lparr>in_section = False, current_section = [],
                       entries = map (\<lambda>e. e\<lparr>updated := False\<rparr>) es\<rparr>
                      (file_lines content) of
        (out1, st) \<Rightarrow>
          (case (if in_section st then append_missing_keys (current_section st) (entries st)
                 else ([], entries st)) of
             (out2, es2) \<Rightarrow> out1 @ out2 @ missing_sections es2))"

definition batch_rewrite :: "ConfigEntry list \<Rightarrow> string \<Rightarrow> string" where
  "batch_rewrite es content = concat (batch_pieces es content)"

section \<open>Reading a value\<close>

text \<open>\<^verbatim>\<open>line[strcspn(line, "\r\n")] = 0\<close>\<close>

definition strip_eol :: "string \<Rightarrow> string" where
  "strip_eol line = takeWhile (\<lambda>c. c \<noteq> CHR 0x0D \<and> c \<noteq> CHR 0x0A) line"

text \<open>
  The value of a line with an equals sign: the bytes after the first one, copied with
  \<^verbatim>\<open>strncpy(file_value, eq + 1, sizeof(file_value)-1)\<close> (at most 255 bytes) and trimmed.
\<close>

definition file_value :: "string \<Rightarrow> string" where
  "file_value line = trim_string (take 255 (tl (dropWhile (\<lambda>c. c \<noteq> CHR ''='') line)))"

text \<open>
  The loop of \<^verbatim>\<open>read_config_value\<close>.  The result \<open>Some v\<close> is the return value 1 with
  \<open>v\<close> in the caller's buffer of \<open>value_size\<close> bytes (\<^verbatim>\<open>strncpy(value, file_value,
  value_size - 1)\<close>, the callers pass the size of an array, which is positive); \<open>None\<close> is
  the return value 0.
\<close>

fun read_loop :: "string \<Rightarrow> string \<Rightarrow> nat \<Rightarrow> bool \<Rightarrow> string \<Rightarrow> string list \<Rightarrow> string option" where
  "read_loop sec k value_size in_sec current [] = None"
| "read_loop sec k value_size in_sec current (raw # lines) =
     (let line = strip_eol raw in
        if is_header line then
          (let current' = trim_string (sscanf_section line current)
           in read_loop sec k value_size (current' = sec) current' lines)
        else if in_sec \<and> has_eq line \<and> file_key line = k then
          Some (take (value_size - 1) (file_value line))
        else read_loop sec k value_size in_sec current lines)"

text \<open>The first argument is the content of the configuration file, \<open>None\<close> when
  \<^verbatim>\<open>fopen\<close> fails.\<close>

definition read_config_value :: "string option \<Rightarrow> string \<Rightarrow> string \<Rightarrow> nat \<Rightarrow> string option" where
  "read_config_value file sec k value_size =
     (case file of
        None \<Rightarrow> None
      | Some content \<Rightarrow> read_loop sec k value_size False [] (file_lines content))"

section \<open>Single-key update of the document\<close>

record value_state =
  in_target :: bool
  key_updated :: bool
  section_found :: bool
  current_name :: string

text \<open>The body of the \<^verbatim>\<open>while\<close> loop of \<^verbatim>\<open>write_config_value\<close>.\<close>

definition value_line :: "string \<Rightarrow> string \<Rightarrow> string \<Rightarrow> value_state \<Rightarrow> string \<Rightarrow> string list \<times> value_state" where
  "value_line sec k v st line =
     (if is_header line then
        (let flush = in_target st \<and> \<not> key_updated st;
             name = trim_string (sscanf_section line (current_name st))
         in ((if flush then [key_value_line k v] else []) @ [line],
             \<lparr>in_target = (name = sec),
              key_updated = (flush \<or> key_updated st),
              section_found = (name = sec \<or> section_found st),
              current_name = name\<rparr>))
      else if in_target st \<and> \<not> key_updated st \<and> has_eq line \<and> file_key line = k then
        ([key_value_line k v], st\<lparr>key_updated := True\<rparr>)
      else ([line], st))"

fun value_loop :: "string \<Rightarrow> string \<Rightarrow> string \<Rightarrow> value_state \<Rightarrow> string list \<Rightarrow> string list \<times> value_state" where
  "value_loop sec k v st [] = ([], st)"
| "value_loop sec k v st (line # lines) =
     (case value_line sec k v st line of
        (out1, st1) \<Rightarrow>
          (case value_loop sec k v st1 lines of (out2, st2) \<Rightarrow> (out1 @ out2, st2)))"

definition value_pieces :: "string \<Rightarrow> string \<Rightarrow> string \<Rightarrow> string \<Rightarrow> string list" where
  "value_pieces sec k v content =
     (case value_loop sec k v
             \<lparr>in_target = False, key_updated = False, section_found = False, current_name = []\<rparr>
             (file_lines content) of
        (out1, st) \<Rightarrow>
          out1 @ (if in_target st \<and> \<not> key_updated st then [key_value_line k v]
                  else if \<not> section_found st then [new_section_text sec k v]
                  else []))"

definition value_rewrite :: "string \<Rightarrow> string \<Rightarrow> string \<Rightarrow> string \<Rightarrow> string" where
  "value_rewrite sec k v content = concat (value_pieces sec k v content)"

section \<open>Files, the lock and the atomic replacement\<close>

text \<open>
  The two files the update touches: the configuration file and the temporary file beside
  it (\<^verbatim>\<open>CONFIG_FILE.tmp.<pid>\<close>), each absent or with a content.  The operating system
  decides the result of every call whose result the source tests: \<^verbatim>\<open>open\<close>, \<^verbatim>\<open>flock\<close>,
  the two \<^verbatim>\<open>fopen\<close>s and \<^verbatim>\<open>rename\<close>.  \<^verbatim>\<open>flock(lock_fd, LOCK_EX)\<close> is called without
  \<^verbatim>\<open>LOCK_NB\<close>: it returns 0 once the lock is granted, a negative value on an error, and
  does not return while another holder keeps the lock.  A call that never returns makes
  the result of the function \<open>None\<close>.
\<close>

datatype flock_outcome = Lock_granted | Lock_error | Lock_held_by_other

record os_calls =
  open_fails :: bool
  flock_outcome :: flock_outcome
  fopen_read_fails :: bool
  fopen_temp_fails :: bool
  rename_fails :: bool

record files =
  config_file :: "string option"
  temp_file :: "string option"

text \<open>
  The frame shared by \<^verbatim>\<open>write_config_value\<close> and \<^verbatim>\<open>write_config_batch\<close>: lock, open,
  create the temporary file, write the rewritten document into it, rename it over the
  original, and on a failed rename \<^verbatim>\<open>unlink\<close> it.  The result is the returned \<^verbatim>\<open>int\<close>
  with the files afterwards.  The source does not test the results of the writes to the
  temporary file, of \<^verbatim>\<open>fclose\<close> and of \<^verbatim>\<open>unlink\<close>; the model takes them to succeed.
\<close>

definition locked_replace :: "(string \<Rightarrow> string) \<Rightarrow> os_calls \<Rightarrow> files \<Rightarrow> (int \<times> files) option" where
  "locked_replace rewrite os fs =
     (case config_file fs of
        None \<Rightarrow> Some (0, fs)
      | Some content \<Rightarrow>
          if open_fails os then Some (0, fs)
          else (case flock_outcome os of
                  Lock_held_by_other \<Rightarrow> None
                | Lock_error \<Rightarrow> Some (0, fs)
                | Lock_granted \<Rightarrow>
                    if fopen_read_fails os then Some (0, fs)
                    else if fopen_temp_fails os then Some (0, fs)
                    else (let written = fs\<lparr>temp_file := Some (rewrite content)\<rparr>
                          in if rename_fails os then Some (0, written\<lparr>temp_file := None\<rparr>)
                             else Some (1, \<lparr>config_file = temp_file written,
                                           temp_file = None\<rparr>))))"

definition write_config_batch :: "os_calls \<Rightarrow> ConfigEntry list \<Rightarrow> files \<Rightarrow> (int \<times> files) option" where
  "write_config_batch os es fs = locked_replace (batch_rewrite es) os fs"

definition write_config_value :: "os_calls \<Rightarrow> string \<Rightarrow> string \<Rightarrow> string \<Rightarrow> files \<Rightarrow> (int \<times> files) option" where
  "write_config_value os sec k v fs = locked_replace (value_rewrite sec k v) os fs"

section \<open>Stopping the service around the write\<close>

datatype command = Killall | Pgrep | Usleep | Killall_9 | Launch_rkipc

text \<open>
  \<^verbatim>\<open>stop_rkipc\<close>: the argument tells for each poll whether \<^verbatim>\<open>pgrep rkipc\<close> still finds
  the process (\<^verbatim>\<open>system\<close> returns 0).  The result is the sequence of commands run.
\<close>

function stop_poll :: "(nat \<Rightarrow> bool) \<Rightarrow> nat \<Rightarrow> command list \<times> bool" where
  "stop_poll running retries =
     (if retries < 50 then
        (if \<not> running retries then ([Pgrep], True)
         else (case stop_poll running (retries + 1) of
                 (cmds, gone) \<Rightarrow> (Pgrep # Usleep # cmds, gone)))
      else ([], False))"
  by pat_completeness auto
termination
  by (relation "measure (\<lambda>(running, retries). 50 - retries)") auto

declare stop_poll.simps [simp del]

definition stop_rkipc :: "(nat \<Rightarrow> bool) \<Rightarrow> command list" where
  "stop_rkipc running =
     (case stop_poll running 0 of
        (cmds, gone) \<Rightarrow>
          if gone then Killall # cmds else Killall # cmds @ [Killall_9, Usleep])"

datatype response = Saved nat | Write_failed | No_valid_updates

text \<open>
  \<^verbatim>\<open>handle_config_update\<close> from the test of \<^verbatim>\<open>update_count\<close> on (lines 1034-1056); the
  entries are the array \<^verbatim>\<open>updates\<close> that the first part of the function parsed from the
  request body.  \<open>launch_status\<close> is what \<^verbatim>\<open>system\<close> returns for the launch of the
  service; the source does not look at it.
\<close>

definition handle_config_update ::
  "(nat \<Rightarrow> bool) \<Rightarrow> os_calls \<Rightarrow> int \<Rightarrow> ConfigEntry list \<Rightarrow> files \<Rightarrow> (response \<times> command list \<times> files) option" where
  "handle_config_update running os launch_status updates fs =
     (if 0 < length updates then
        (let stopped = stop_rkipc running
         in (case write_config_batch os updates fs of
               None \<Rightarrow> None
             | Some (success, fs') \<Rightarrow>
                 Some (if success \<noteq> 0 then Saved (length updates) else Write_failed,
                       stopped @ [Launch_rkipc], fs')))
      else Some (No_valid_updates, [], fs))"

text \<open>The equations that evaluate the model on a given document.\<close>

lemmas text_eval =
  file_lines_def read_lines.simps cstr_def is_header_def has_eq_def file_key_def
  file_value_def strip_eol_def trim_string_def is_lead_def is_trail_def sscanf_section_def
  key_value_line_def new_section_text_def

lemmas batch_eval = batch_rewrite_def batch_pieces_def batch_line_def text_eval

lemmas value_eval = value_rewrite_def value_pieces_def value_line_def text_eval

section \<open>Notions used to state the properties\<close>

text \<open>
  The section names the update loop holds in \<^verbatim>\<open>current_section\<close> after each header line
  of the document, in order: the sections that occur in the document, as the program reads
  them.
\<close>

fun header_names :: "string \<Rightarrow> string list \<Rightarrow> string list" where
  "header_names current [] = []"
| "header_names current (line # lines) =
     (if is_header line
      then (let name = trim_string (sscanf_section line current)
            in name # header_names name lines)
      else header_names current lines)"

definition section_names :: "string \<Rightarrow> string list" where
  "section_names content = header_names [] (file_lines content)"

text \<open>
  New sections as the specification words them: one header per section, in the order of
  the first entry of each, followed by the lines of all the entries of that section.
\<close>

function group_sections :: "ConfigEntry list \<Rightarrow> string" where
  "group_sections [] = []"
| "group_sections (e # es) =
     ''\<newline>['' @ section e @ '']\<newline>'' @
     concat (map (\<lambda>x. key_value_line (key x) (value x))
                 (e # filter (\<lambda>x. section x = section e) es)) @
     group_sections (filter (\<lambda>x. section x \<noteq> section e) es)"
  by pat_completeness auto
termination
  by (relation "measure length") (auto simp: less_Suc_eq_le)

text \<open>A line as the batch update leaves it inside the section of an entry with key \<open>k\<close>.\<close>

definition rewritten :: "string \<Rightarrow> string \<Rightarrow> string \<Rightarrow> string" where
  "rewritten k v line = (if has_eq line \<and> file_key line = k then key_value_line k v else line)"

text \<open>
  A complete line: what \<^verbatim>\<open>fgets\<close> returned ends with a newline and holds no NUL byte.  A
  document all of whose lines are complete is empty or ends with a newline, has no NUL
  byte and no line of more than 511 bytes, the newline counted.
\<close>

definition complete_line :: "string \<Rightarrow> bool" where
  "complete_line l \<longleftrightarrow> l \<noteq> [] \<and> last l = CHR 0x0A \<and> CHR 0x00 \<notin> set l"

text \<open>A line that one call of \<^verbatim>\<open>fgets\<close> reads whole.\<close>

definition whole_line :: "string \<Rightarrow> bool" where
  "whole_line l \<longleftrightarrow> (\<exists>b. l = b @ [CHR 0x0A] \<and> CHR 0x0A \<notin> set b \<and> length b < 511)"

definition complete_document :: "string \<Rightarrow> bool" where
  "complete_document D \<longleftrightarrow> (\<forall>l\<in>set (read_lines D). complete_line l)"

text \<open>A text line: complete, and ended by a newline or by a carriage return and a newline,
  with no other carriage return.\<close>

definition text_line :: "string \<Rightarrow> bool" where
  "text_line l \<longleftrightarrow>
     CHR 0x00 \<notin> set l \<and> (l = strip_eol l @ [CHR 0x0A] \<or> l = strip_eol l @ [CHR 0x0D, CHR 0x0A])"

definition text_document :: "string \<Rightarrow> bool" where
  "text_document D \<longleftrightarrow> (\<forall>l\<in>set (read_lines D). text_line l)"

text \<open>
  The strings of an entry that the file format can hold.  All are plain: no newline, no
  carriage return, no NUL.  A key is trimmed, has no equals sign, does not start with an
  opening bracket and fits \<^verbatim>\<open>char key[64]\<close>.  A section name is trimmed, not empty, has no
  closing bracket and fits \<^verbatim>\<open>char section[64]\<close>.  A value fits \<^verbatim>\<open>char value[256]\<close>.
\<close>

definition plain :: "string \<Rightarrow> bool" where
  "plain s \<longleftrightarrow> CHR 0x0A \<notin> set s \<and> CHR 0x0D \<notin> set s \<and> CHR 0x00 \<notin> set s"

definition key_ok :: "string \<Rightarrow> bool" where
  "key_ok k \<longleftrightarrow>
     plain k \<and> trim_string k = k \<and> CHR ''='' \<notin> set k \<and> \<not> is_header k \<and> length k < 64"

definition section_ok :: "string \<Rightarrow> bool" where
  "section_ok s \<longleftrightarrow>
     plain s \<and> trim_string s = s \<and> s \<noteq> [] \<and> CHR '']'' \<notin> set s \<and> length s < 64"

definition value_ok :: "string \<Rightarrow> bool" where
  "value_ok v \<longleftrightarrow> plain v \<and> length v < 256"

definition entry_ok :: "ConfigEntry \<Rightarrow> bool" where
  "entry_ok e \<longleftrightarrow> section_ok (section e) \<and> key_ok (key e) \<and> value_ok (value e)"

text \<open>
  The lines of a document as a text: each one up to and including its newline, the last
  one possibly without, however long they are.
\<close>

fun doc_lines :: "string \<Rightarrow> string list" where
  "doc_lines [] = []"
| "doc_lines (c # s) =
     (if c = CHR 0x0A then [c] # doc_lines s
      else (case doc_lines s of [] \<Rightarrow> [[c]] | l # ls \<Rightarrow> (c # l) # ls))"

text \<open>
  The lines that the batch update does not replace: every line but the lines with an
  equals sign that stand in the section of an entry and have the key of that entry, the
  sections followed as the update loop follows them.
\<close>

fun untouched :: "ConfigEntry list \<Rightarrow> bool \<Rightarrow> string \<Rightarrow> string list \<Rightarrow> string list" where
  "untouched es in_sec current [] = []"
| "untouched es in_sec current (line # lines) =
     (if is_header line then
        line # untouched es True (trim_string (sscanf_section line current)) lines
      else if in_sec \<and> has_eq line \<and>
              (\<exists>e\<in>set es. section e = current \<and> key e = file_key line) then
        untouched es in_sec current lines
      else line # untouched es in_sec current lines)"

text \<open>
  The number of lines with key \<open>k\<close> in section \<open>sec\<close>, and whether the first run of lines
  of section \<open>sec\<close> (from a header that names it to the next header) holds the key \<open>k\<close>;
  both with the sections followed as the update loop follows them.
\<close>

fun count_key :: "string \<Rightarrow> string \<Rightarrow> bool \<Rightarrow> string \<Rightarrow> string list \<Rightarrow> nat" where
  "count_key sec k in_sec current [] = 0"
| "count_key sec k in_sec current (line # lines) =
     (if is_header line then
        count_key sec k True (trim_string (sscanf_section line current)) lines
      else (if in_sec \<and> current = sec \<and> has_eq line \<and> file_key line = k then 1 else 0) +
           count_key sec k in_sec current lines)"

fun in_first_run :: "string \<Rightarrow> string \<Rightarrow> bool \<Rightarrow> string \<Rightarrow> string list \<Rightarrow> bool" where
  "in_first_run sec k in_sec current [] = False"
| "in_first_run sec k in_sec current (line # lines) =
     (if is_header line then
        (if in_sec \<and> current = sec then False
         else in_first_run sec k True (trim_string (sscanf_section line current)) lines)
      else if in_sec \<and> current = sec \<and> has_eq line \<and> file_key line = k then True
      else in_first_run sec k in_sec current lines)"

text \<open>Two arrays of entries that differ in the \<^verbatim>\<open>updated\<close> flags only.\<close>

definition same_keys :: "ConfigEntry list \<Rightarrow> ConfigEntry list \<Rightarrow> bool" where
  "same_keys es es' \<longleftrightarrow>
     map (\<lambda>e. (section e, key e, value e)) es' = map (\<lambda>e. (section e, key e, value e)) es"

text \<open>The header line of a section as the update writes it, and what the update with one
  entry writes after the loop.\<close>

definition header_line :: "string \<Rightarrow> string" where
  "header_line s = ''['' @ s @ '']\<newline>''"

definition single_tail :: "batch_state \<Rightarrow> ConfigEntry \<Rightarrow> string list" where
  "single_tail st e =
     (if updated e then []
      else if in_section st \<and> section e = current_section st
      then [key_value_line (key e) (value e)]
      else [new_section_text (section e) (key e) (value e)])"

text \<open>
  Notions for reading after an update.  A value that \<^verbatim>\<open>read_config_value\<close> gives back
  unchanged into a buffer of \<open>n\<close> bytes: plain, trimmed, shorter than the 255 bytes copied
  after the equals sign (one of which is the blank the update writes), and shorter than the
  buffer.  The first entry of the batch for a section and key, while its line is not yet
  written.  The relation between the reader's state and the state of the update loop on
  the same lines, while that entry is not yet written.
\<close>

definition value_reads :: "string \<Rightarrow> nat \<Rightarrow> bool" where
  "value_reads v n \<longleftrightarrow> plain v \<and> trim_string v = v \<and> length v < 255 \<and> length v < n"

definition pending :: "string \<Rightarrow> string \<Rightarrow> ConfigEntry list \<Rightarrow> string \<Rightarrow> bool" where
  "pending sec k es v \<longleftrightarrow>
     (\<exists>e. find (\<lambda>e. section e = sec \<and> key e = k) es = Some e \<and> \<not> updated e \<and> value e = v)"

definition reader_agrees :: "string \<Rightarrow> bool \<Rightarrow> string \<Rightarrow> batch_state \<Rightarrow> bool" where
  "reader_agrees sec in_sec current st \<longleftrightarrow>
     trim_string current = current \<and> trim_string (current_section st) = current_section st \<and>
     (in_sec \<longleftrightarrow> current = sec) \<and>
     (if in_section st then (current = sec \<longleftrightarrow> current_section st = sec)
      else current = [] \<and> current_section st = [])"

section \<open>Lines, entries and the two loops\<close>

lemma fgets_append: "fgets n s = (l, r) \<Longrightarrow> l @ r = s"
proof (induction s arbitrary: n l r)
  case Nil
  then show ?case by simp
next
  case (Cons c s)
  show ?case
  proof (cases "n = 0")
    case True
    with Cons.prems show ?thesis by simp
  next
    case False
    then have n: "0 < n" by simp
    show ?thesis
    proof (cases "c = CHR 0x0A")
      case True
      with n Cons.prems show ?thesis by auto
    next
      case False
      obtain l' r' where f: "fgets (n - 1) s = (l', r')" by (cases "fgets (n - 1) s")
      with False n Cons.prems have "l = c # l'" "r = r'" by simp_all
      with Cons.IH[OF f] show ?thesis by simp
    qed
  qed
qed

lemma concat_read_lines: "concat (read_lines s) = s"
proof (induction s rule: read_lines.induct)
  case (1 s)
  show ?case
  proof (cases "s = []")
    case True
    then show ?thesis by (simp add: read_lines.simps)
  next
    case False
    obtain l r where f: "fgets 511 s = (l, r)" by (cases "fgets 511 s")
    from "1.IH"[OF False f[symmetric]] have "concat (read_lines r) = r" .
    with False f fgets_append[OF f] show ?thesis
      by (subst read_lines.simps) simp
  qed
qed

lemma set_read_lines: "l \<in> set (read_lines s) \<Longrightarrow> set l \<subseteq> set s"
  using concat_read_lines[of s] by (metis set_concat UN_upper)

lemma cstr_id: "CHR 0x00 \<notin> set l \<Longrightarrow> cstr l = l"
  by (auto simp: cstr_def)

lemma file_lines_text: "CHR 0x00 \<notin> set D \<Longrightarrow> file_lines D = read_lines D"
  unfolding file_lines_def
  by (rule map_idI) (auto dest: set_read_lines intro: cstr_id)

lemma concat_file_lines: "CHR 0x00 \<notin> set D \<Longrightarrow> concat (file_lines D) = D"
  by (simp add: file_lines_text concat_read_lines)

lemma append_missing_keys_fst:
  "fst (append_missing_keys sec es) =
     map (\<lambda>e. key_value_line (key e) (value e)) (filter (\<lambda>e. \<not> updated e \<and> section e = sec) es)"
  by (induction es) (auto split: prod.splits)

lemma append_missing_keys_snd:
  "snd (append_missing_keys sec es) =
     map (\<lambda>e. if \<not> updated e \<and> section e = sec then e\<lparr>updated := True\<rparr> else e) es"
  by (induction es) (auto split: prod.splits)

lemma append_missing_keys_eq:
  "append_missing_keys sec es =
     (map (\<lambda>e. key_value_line (key e) (value e)) (filter (\<lambda>e. \<not> updated e \<and> section e = sec) es),
      map (\<lambda>e. if \<not> updated e \<and> section e = sec then e\<lparr>updated := True\<rparr> else e) es)"
  by (simp add: prod_eq_iff append_missing_keys_fst append_missing_keys_snd)

lemma append_missing_keys_none:
  "\<forall>e\<in>set es. section e \<noteq> sec \<Longrightarrow> append_missing_keys sec es = ([], es)"
  by (simp add: append_missing_keys_eq map_idI)

lemma find_match_none: "\<forall>e\<in>set es. section e \<noteq> sec \<Longrightarrow> find_match sec k es = None"
  by (induction es) auto

lemma batch_loop_copy:
  assumes "\<forall>e\<in>set (entries st). section e \<notin> set (header_names (current_section st) ls)"
    and "in_section st \<longrightarrow> (\<forall>e\<in>set (entries st). section e \<noteq> current_section st)"
  shows "\<exists>st'. batch_loop st ls = (ls, st') \<and> entries st' = entries st \<and>
           (in_section st' \<longrightarrow> (\<forall>e\<in>set (entries st). section e \<noteq> current_section st'))"
  using assms
proof (induction ls arbitrary: st)
  case Nil
  then show ?case by simp
next
  case (Cons l ls)
  show ?case
  proof (cases "is_header l")
    case True
    let ?name = "trim_string (sscanf_section l (current_section st))"
    let ?st1 = "\<lparr>in_section = True, current_section = ?name, entries = entries st\<rparr>"
    have am: "in_section st \<Longrightarrow> append_missing_keys (current_section st) (entries st) = ([], entries st)"
      using Cons.prems(2) by (simp add: append_missing_keys_none)
    have step: "batch_line st l = ([l], ?st1)"
      using True am by (cases "in_section st") (simp_all add: batch_line_def)
    from Cons.prems(1) True
    have p1: "\<forall>e\<in>set (entries ?st1). section e \<notin> set (header_names (current_section ?st1) ls)"
      and p2: "in_section ?st1 \<longrightarrow> (\<forall>e\<in>set (entries ?st1). section e \<noteq> current_section ?st1)"
      by (auto simp: Let_def)
    from Cons.IH[OF p1 p2] step show ?thesis by auto
  next
    case False
    have fm: "in_section st \<Longrightarrow> find_match (current_section st) k (entries st) = None" for k
      using Cons.prems(2) by (simp add: find_match_none)
    have step: "batch_line st l = ([l], st)"
      using False fm by (simp add: batch_line_def)
    from Cons.prems False
    have p1: "\<forall>e\<in>set (entries st). section e \<notin> set (header_names (current_section st) ls)"
      by simp
    from Cons.IH[OF p1 Cons.prems(2)] step show ?thesis by auto
  qed
qed

lemma group_sections_updated:
  "group_sections (map (\<lambda>e. e\<lparr>updated := f e\<rparr>) es) = group_sections es"
proof (induction es rule: group_sections.induct)
  case 1
  then show ?case by simp
next
  case (2 e es)
  then show ?case by (simp add: filter_map o_def)
qed

lemma missing_sections_group:
  "concat (missing_sections es) = group_sections (filter (\<lambda>e. \<not> updated e) es)"
proof (induction es rule: missing_sections.induct)
  case 1
  then show ?case by simp
next
  case (2 e es)
  show ?case
  proof (cases "updated e")
    case True
    with 2 show ?thesis by simp
  next
    case False
    let ?es' = "map (\<lambda>x. if \<not> updated x \<and> section x = section e then x\<lparr>updated := True\<rparr> else x) es"
    have ih: "concat (missing_sections ?es') = group_sections (filter (\<lambda>e. \<not> updated e) ?es')"
      using "2.IH"(2)[OF False] by (simp add: append_missing_keys_eq)
    have f1: "filter (\<lambda>e. \<not> updated e) ?es' = filter (\<lambda>x. section x \<noteq> section e) (filter (\<lambda>e. \<not> updated e) es)"
      by (induction es) auto
    show ?thesis using False ih f1
      by (simp add: append_missing_keys_eq new_section_text_def conj_commute)
  qed
qed

lemma group_sections_same:
  "es \<noteq> [] \<Longrightarrow> \<forall>e\<in>set es. section e = S \<Longrightarrow>
   group_sections es = ''\<newline>['' @ S @ '']\<newline>'' @ concat (map (\<lambda>x. key_value_line (key x) (value x)) es)"
  by (cases es) (auto simp: filter_id_conv)


lemma batch_loop_append:
  "batch_loop st (xs @ ys) =
     (case batch_loop st xs of (o1, st1) \<Rightarrow>
        (case batch_loop st1 ys of (o2, st2) \<Rightarrow> (o1 @ o2, st2)))"
  by (induction xs arbitrary: st) (auto split: prod.splits)

lemma value_loop_append:
  "value_loop sec k v st (xs @ ys) =
     (case value_loop sec k v st xs of (o1, st1) \<Rightarrow>
        (case value_loop sec k v st1 ys of (o2, st2) \<Rightarrow> (o1 @ o2, st2)))"
  by (induction xs arbitrary: st) (auto split: prod.splits)

lemma batch_loop_outside:
  "\<not> in_section st \<Longrightarrow> \<forall>l\<in>set ls. \<not> is_header l \<Longrightarrow> batch_loop st ls = (ls, st)"
  by (induction ls) (auto simp: batch_line_def)

lemma value_loop_outside:
  "\<not> in_target st \<Longrightarrow> \<forall>l\<in>set ls. \<not> is_header l \<Longrightarrow> value_loop sec k v st ls = (ls, st)"
  by (induction ls) (auto simp: value_line_def)

lemma value_loop_no_match:
  "\<forall>l\<in>set ls. \<not> is_header l \<and> \<not> (has_eq l \<and> file_key l = k) \<Longrightarrow>
   value_loop sec k v st ls = (ls, st)"
  by (induction ls) (auto simp: value_line_def)

lemma value_loop_done:
  "key_updated st \<Longrightarrow> section_found st \<Longrightarrow>
   \<exists>st'. value_loop sec k v st ls = (ls, st') \<and> key_updated st' \<and> section_found st'"
proof (induction ls arbitrary: st)
  case Nil
  then show ?case by simp
next
  case (Cons l ls)
  obtain o1 st1 where s: "value_line sec k v st l = (o1, st1)" by (cases "value_line sec k v st l")
  with Cons.prems have "o1 = [l] \<and> key_updated st1 \<and> section_found st1"
    by (auto simp: value_line_def Let_def split: if_splits)
  with Cons.IH[of st1] s show ?case by auto
qed

lemma batch_loop_section:
  assumes "in_section st" and "current_section st = S" and "entries st = [e]"
    and "section e = S" and "\<forall>l\<in>set ls. \<not> is_header l"
  shows "\<exists>st' b. batch_loop st ls = (map (rewritten (key e) (value e)) ls, st') \<and> in_section st' \<and>
           current_section st' = S \<and> entries st' = [e\<lparr>updated := b\<rparr>]"
  using assms
proof (induction ls arbitrary: st e)
  case Nil
  then show ?case by (auto intro: exI[of _ "updated e"])
next
  case (Cons l ls)
  show ?case
  proof (cases "has_eq l \<and> file_key l = key e")
    case True
    let ?st1 = "st\<lparr>entries := [e\<lparr>updated := True\<rparr>]\<rparr>"
    have step: "batch_line st l = ([key_value_line (key e) (value e)], ?st1)"
      using True Cons.prems by (simp add: batch_line_def)
    have "\<exists>st' b. batch_loop ?st1 ls = (map (rewritten (key (e\<lparr>updated := True\<rparr>)) (value (e\<lparr>updated := True\<rparr>))) ls, st') \<and>
            in_section st' \<and> current_section st' = S \<and> entries st' = [e\<lparr>updated := True, updated := b\<rparr>]"
      using Cons.prems by (intro Cons.IH) simp_all
    with step True show ?thesis by (auto simp: rewritten_def)
  next
    case False
    have step: "batch_line st l = ([l], st)"
      using False Cons.prems by (auto simp: batch_line_def)
    have "\<exists>st' b. batch_loop st ls = (map (rewritten (key e) (value e)) ls, st') \<and>
            in_section st' \<and> current_section st' = S \<and> entries st' = [e\<lparr>updated := b\<rparr>]"
      using Cons.prems by (intro Cons.IH) simp_all
    with step False show ?thesis by (auto simp: rewritten_def)
  qed
qed


subsection \<open>trim\<close>

lemma trim_string_Nil [simp]: "trim_string [] = []"
  by (simp add: trim_string_def)

lemma length_trim_string: "length (trim_string s) \<le> length (dropWhile is_lead s)"
  unfolding trim_string_def using length_dropWhile_le[of is_trail "rev (dropWhile is_lead s)"] by simp

lemma trim_string_fixed:
  assumes "trim_string s = s" and "s \<noteq> []"
  shows "\<not> is_lead (hd s)" and "\<not> is_trail (last s)"
proof -
  show l: "\<not> is_lead (hd s)"
  proof
    assume "is_lead (hd s)"
    with assms(2) have "length (dropWhile is_lead s) < length s"
      by (cases s) (auto simp: le_imp_less_Suc length_dropWhile_le)
    with length_trim_string[of s] assms(1) show False by simp
  qed
  with assms(2) have "dropWhile is_lead s = s" by (cases s) auto
  with assms(1) have "dropWhile is_trail (rev s) = rev s"
    by (simp add: trim_string_def) (metis rev_rev_ident)
  with assms(2) have "\<not> is_trail (hd (rev s))"
    by (simp add: dropWhile_eq_self_iff)
  with assms(2) show "\<not> is_trail (last s)" by (simp add: hd_rev)
qed

lemma trim_string_id:
  assumes "s = [] \<or> (\<not> is_lead (hd s) \<and> \<not> is_trail (last s))"
  shows "trim_string s = s"
proof (cases "s = []")
  case True
  then show ?thesis by simp
next
  case False
  with assms have a: "\<not> is_lead (hd s)" and b: "\<not> is_trail (last s)" by auto
  from False a have "dropWhile is_lead s = s" by (cases s) auto
  moreover from False b have "dropWhile is_trail (rev s) = rev s"
    by (simp add: dropWhile_eq_self_iff hd_rev)
  ultimately show ?thesis by (simp add: trim_string_def)
qed

lemma trim_string_idem [simp]: "trim_string (trim_string s) = trim_string s"
proof (rule trim_string_id, cases "trim_string s = []")
  case True
  then show "trim_string s = [] \<or> \<not> is_lead (hd (trim_string s)) \<and> \<not> is_trail (last (trim_string s))"
    by simp
next
  case False
  let ?d = "dropWhile is_lead s"
  let ?t = "dropWhile is_trail (rev ?d)"
  from False have t: "?t \<noteq> []" by (simp add: trim_string_def)
  then have d: "?d \<noteq> []" by (auto simp del: dropWhile_eq_Nil_conv)
  have "last (trim_string s) = hd ?t" using t by (simp add: trim_string_def last_rev)
  with t have l: "\<not> is_trail (last (trim_string s))" by (simp add: hd_dropWhile)
  have "hd (trim_string s) = last ?t" using t by (simp add: trim_string_def hd_rev)
  also have "last ?t = last (rev ?d)" using t
    by (metis last_appendR takeWhile_dropWhile_id)
  also have "\<dots> = hd ?d" using d by (simp add: last_rev)
  finally have "\<not> is_lead (hd (trim_string s))" using d by (simp add: hd_dropWhile)
  with l show "trim_string s = [] \<or> \<not> is_lead (hd (trim_string s)) \<and> \<not> is_trail (last (trim_string s))"
    by simp
qed

lemma trim_string_append_trail:
  assumes "\<forall>c\<in>set t. is_trail c"
  shows "trim_string (y @ t) = trim_string y"
proof (cases "dropWhile is_lead y = []")
  case True
  then have a: "\<forall>c\<in>set y. is_lead c" by simp
  then have "dropWhile is_lead (y @ t) = dropWhile is_lead t" by simp
  moreover have "\<forall>c\<in>set (dropWhile is_lead t). is_trail c"
    using assms by (auto dest: set_dropWhileD)
  ultimately have "trim_string (y @ t) = []" by (simp add: trim_string_def)
  moreover have "trim_string y = []" using True by (simp add: trim_string_def del: dropWhile_eq_Nil_conv)
  ultimately show ?thesis by simp
next
  case False
  then have "\<exists>c\<in>set y. \<not> is_lead c" by auto
  then have "dropWhile is_lead (y @ t) = dropWhile is_lead y @ t"
    by (auto intro: dropWhile_append1)
  moreover have "dropWhile is_trail (rev t @ rev (dropWhile is_lead y)) =
                 dropWhile is_trail (rev (dropWhile is_lead y))"
    using assms by (intro dropWhile_append2) auto
  ultimately show ?thesis by (simp add: trim_string_def)
qed

lemma trim_string_lead: "is_lead c \<Longrightarrow> trim_string (c # s) = trim_string s"
  by (simp add: trim_string_def)

subsection \<open>fgets and lines\<close>

lemma fgets_line:
  "CHR 0x0A \<notin> set b \<Longrightarrow> length b < n \<Longrightarrow> fgets n (b @ CHR 0x0A # r) = (b @ [CHR 0x0A], r)"
proof (induction b arbitrary: n)
  case Nil
  then show ?case by simp
next
  case (Cons c b)
  then have "fgets (n - 1) (b @ CHR 0x0A # r) = (b @ [CHR 0x0A], r)"
    by (intro Cons.IH) auto
  with Cons.prems show ?case by auto
qed

lemma fgets_chunk:
  "fgets n s = (l, r) \<Longrightarrow> length l \<le> n \<and> CHR 0x0A \<notin> set (butlast l)"
proof (induction s arbitrary: n l r)
  case Nil
  then show ?case by simp
next
  case (Cons c s)
  show ?case
  proof (cases "n = 0")
    case True
    with Cons.prems show ?thesis by simp
  next
    case False
    then have n: "0 < n" by simp
    show ?thesis
    proof (cases "c = CHR 0x0A")
      case True
      with n Cons.prems show ?thesis by auto
    next
      case False
      obtain l' r' where f: "fgets (n - 1) s = (l', r')" by (cases "fgets (n - 1) s")
      with False n Cons.prems have l: "l = c # l'" by simp
      from Cons.IH[OF f] have "length l' \<le> n - 1" "CHR 0x0A \<notin> set (butlast l')" by auto
      with l n False show ?thesis by (cases l') auto
    qed
  qed
qed

lemma fgets_nonempty: "s \<noteq> [] \<Longrightarrow> 0 < n \<Longrightarrow> fgets n s = (l, r) \<Longrightarrow> l \<noteq> []"
  by (cases s) (auto split: if_splits prod.splits)

lemma read_lines_Nil [simp]: "read_lines [] = []"
  by (simp add: read_lines.simps)

lemma read_lines_chunk:
  "l \<in> set (read_lines s) \<Longrightarrow> l \<noteq> [] \<and> length l \<le> 511 \<and> CHR 0x0A \<notin> set (butlast l)"
proof (induction s rule: read_lines.induct)
  case (1 s)
  show ?case
  proof (cases "s = []")
    case True
    with "1.prems" show ?thesis by simp
  next
    case False
    obtain l' r where f: "fgets 511 s = (l', r)" by (cases "fgets 511 s")
    from "1.prems" False f have "l = l' \<or> l \<in> set (read_lines r)"
      by (subst (asm) read_lines.simps) auto
    then show ?thesis
    proof
      assume "l = l'"
      with fgets_chunk[OF f] fgets_nonempty[OF False _ f] show ?thesis by simp
    next
      assume "l \<in> set (read_lines r)"
      with "1.IH"[OF False f[symmetric]] show ?thesis by simp
    qed
  qed
qed

lemma fgets_append_more:
  "fgets n p = (l, r') \<Longrightarrow> r' \<noteq> [] \<or> (l \<noteq> [] \<and> last l = CHR 0x0A) \<Longrightarrow>
   fgets n (p @ r) = (l, r' @ r)"
proof (induction p arbitrary: n l r')
  case Nil
  then show ?case by simp
next
  case (Cons c p)
  show ?case
  proof (cases "n = 0")
    case True
    with Cons.prems show ?thesis by simp
  next
    case False
    then have n: "0 < n" by simp
    show ?thesis
    proof (cases "c = CHR 0x0A")
      case True
      with n Cons.prems show ?thesis by auto
    next
      case False
      obtain l' r'' where f: "fgets (n - 1) p = (l', r'')" by (cases "fgets (n - 1) p")
      with False n Cons.prems(1) have l: "l = c # l'" "r' = r''" by simp_all
      with Cons.prems(2) False have "r'' \<noteq> [] \<or> (l' \<noteq> [] \<and> last l' = CHR 0x0A)"
        by (cases l') auto
      from Cons.IH[OF f this] l n False show ?thesis by simp
    qed
  qed
qed

lemma read_lines_append:
  "p \<noteq> [] \<Longrightarrow> last p = CHR 0x0A \<Longrightarrow> read_lines (p @ r) = read_lines p @ read_lines r"
proof (induction p rule: read_lines.induct)
  case (1 p)
  obtain l r' where f: "fgets 511 p = (l, r')" by (cases "fgets 511 p")
  from fgets_append[OF f] have lp: "l @ r' = p" .
  have ne: "l \<noteq> []" using fgets_nonempty[OF "1.prems"(1) _ f] by simp
  have c: "r' \<noteq> [] \<or> (l \<noteq> [] \<and> last l = CHR 0x0A)"
    using lp "1.prems" ne by (cases "r' = []") auto
  from fgets_append_more[OF f c] have g: "fgets 511 (p @ r) = (l, r' @ r)" .
  have a: "read_lines p = l # read_lines r'"
    using "1.prems"(1) f by (subst read_lines.simps) simp
  have b: "read_lines (p @ r) = l # read_lines (r' @ r)"
    using "1.prems"(1) g by (subst read_lines.simps) simp
  show ?case
  proof (cases "r' = []")
    case True
    with a b show ?thesis by simp
  next
    case False
    with lp "1.prems" have "last r' = CHR 0x0A" by (metis last_appendR)
    from "1.IH"[OF "1.prems"(1) f[symmetric] False this] a b show ?thesis by simp
  qed
qed

lemma read_lines_concat:
  "\<forall>p\<in>set ps. p \<noteq> [] \<and> last p = CHR 0x0A \<Longrightarrow>
   read_lines (concat ps) = concat (map read_lines ps)"
  by (induction ps) (simp_all add: read_lines_append)

lemma read_lines_whole: "whole_line l \<Longrightarrow> read_lines l = [l]"
proof -
  assume "whole_line l"
  then obtain b where l: "l = b @ [CHR 0x0A]" and b: "CHR 0x0A \<notin> set b" "length b < 511"
    by (auto simp: whole_line_def)
  from fgets_line[OF b, of "[]"] l have "fgets 511 l = (l, [])" by simp
  with l show ?thesis by (subst read_lines.simps) simp
qed

lemma whole_lineI:
  assumes "l \<in> set (read_lines D)" and "last l = CHR 0x0A"
  shows "whole_line l"
proof -
  from read_lines_chunk[OF assms(1)] have ne: "l \<noteq> []" and len: "length l \<le> 511"
    and nl: "CHR 0x0A \<notin> set (butlast l)" by auto
  from ne assms(2) have "l = butlast l @ [CHR 0x0A]" by (metis append_butlast_last_id)
  moreover from ne len have "length (butlast l) < 511" by (cases l) auto
  ultimately show ?thesis using nl unfolding whole_line_def by blast
qed

lemma whole_line_last: "whole_line l \<Longrightarrow> l \<noteq> [] \<and> last l = CHR 0x0A"
  by (auto simp: whole_line_def)

lemma read_lines_concat_whole:
  "\<forall>l\<in>set ls. whole_line l \<Longrightarrow> read_lines (concat ls) = ls"
proof -
  assume a: "\<forall>l\<in>set ls. whole_line l"
  then have "read_lines (concat ls) = concat (map read_lines ls)"
    by (intro read_lines_concat) (auto dest: whole_line_last)
  also have "map read_lines ls = map (\<lambda>l. [l]) ls"
    using a by (intro map_cong refl) (simp add: read_lines_whole)
  also have "concat (map (\<lambda>l. [l]) ls) = ls" by (induction ls) auto
  finally show ?thesis .
qed

lemma same_keys_refl [simp]: "same_keys es es"
  by (simp add: same_keys_def)

lemma same_keys_reset [simp]: "same_keys es (map (\<lambda>e. e\<lparr>updated := f e\<rparr>) es)"
  by (simp add: same_keys_def o_def)

lemma map_append_missing_keys:
  "map (\<lambda>e. (section e, key e, value e)) (snd (append_missing_keys sec es)) =
   map (\<lambda>e. (section e, key e, value e)) es"
  by (induction es) (auto split: prod.splits)

lemma same_keys_append_missing:
  "same_keys es es' \<Longrightarrow> same_keys es (snd (append_missing_keys sec es'))"
  by (simp add: same_keys_def map_append_missing_keys)

lemma map_mark_updated:
  "map (\<lambda>e. (section e, key e, value e)) (es[i := (es ! i)\<lparr>updated := b\<rparr>]) =
   map (\<lambda>e. (section e, key e, value e)) es"
  by (induction es arbitrary: i) (auto split: nat.splits)

lemma same_keys_update:
  "same_keys es es' \<Longrightarrow> same_keys es (es'[i := (es' ! i)\<lparr>updated := b\<rparr>])"
  by (simp add: same_keys_def map_mark_updated)

lemma find_match_Some:
  "find_match sec k es = Some i \<Longrightarrow>
   i < length es \<and> section (es ! i) = sec \<and> key (es ! i) = k \<and>
   (\<forall>j<i. \<not> (section (es ! j) = sec \<and> key (es ! j) = k))"
proof (induction es arbitrary: i)
  case Nil
  then show ?case by simp
next
  case (Cons e es)
  show ?case
  proof (cases "section e = sec \<and> key e = k")
    case True
    with Cons.prems show ?thesis by simp
  next
    case False
    with Cons.prems obtain i' where i: "i = Suc i'" and f: "find_match sec k es = Some i'"
      by auto
    from Cons.IH[OF f] False i show ?thesis by (auto simp: less_Suc_eq_0_disj)
  qed
qed

lemma find_match_None:
  "find_match sec k es = None \<longleftrightarrow> \<not> (\<exists>e\<in>set es. section e = sec \<and> key e = k)"
  by (induction es) auto

lemma same_keys_targets:
  assumes "same_keys es es'"
  shows "(\<exists>e\<in>set es'. section e = sec \<and> key e = k) \<longleftrightarrow> (\<exists>e\<in>set es. section e = sec \<and> key e = k)"
proof -
  have "(\<exists>e\<in>set xs. section e = sec \<and> key e = k) \<longleftrightarrow>
        (sec, k) \<in> set (map (\<lambda>e. (section e, key e)) xs)" for xs :: "ConfigEntry list"
    by force
  moreover have "map (\<lambda>e. (section e, key e)) es' = map (\<lambda>e. (section e, key e)) es"
  proof -
    have "map (\<lambda>t. (fst t, fst (snd t))) (map (\<lambda>e. (section e, key e, value e)) es') =
          map (\<lambda>t. (fst t, fst (snd t))) (map (\<lambda>e. (section e, key e, value e)) es)"
      using assms by (simp add: same_keys_def)
    then show ?thesis by (simp add: o_def)
  qed
  then have "set (map (\<lambda>e. (section e, key e)) es') = set (map (\<lambda>e. (section e, key e)) es)"
    by (rule arg_cong)
  ultimately show ?thesis by blast
qed

lemma batch_line_header:
  "is_header l \<Longrightarrow>
   batch_line st l =
     (fst (if in_section st then append_missing_keys (current_section st) (entries st)
           else ([], entries st)) @ [l],
      \<lparr>in_section = True,
       current_section = trim_string (sscanf_section l (current_section st)),
       entries = snd (if in_section st then append_missing_keys (current_section st) (entries st)
                      else ([], entries st))\<rparr>)"
  by (simp add: batch_line_def split: prod.splits)

lemma batch_line_match:
  "\<not> is_header l \<Longrightarrow> in_section st \<Longrightarrow> has_eq l \<Longrightarrow>
   find_match (current_section st) (file_key l) (entries st) = Some i \<Longrightarrow>
   batch_line st l =
     ([key_value_line (key (entries st ! i)) (value (entries st ! i))],
      st\<lparr>entries := (entries st)[i := (entries st ! i)\<lparr>updated := True\<rparr>]\<rparr>)"
  by (simp add: batch_line_def)

lemma batch_line_copy:
  "\<not> is_header l \<Longrightarrow>
   \<not> in_section st \<or> \<not> has_eq l \<or>
     find_match (current_section st) (file_key l) (entries st) = None \<Longrightarrow>
   batch_line st l = ([l], st)"
  by (auto simp: batch_line_def)

lemma batch_line_cases:
  obtains (header) "is_header l"
  | (match) i where "\<not> is_header l" "in_section st" "has_eq l"
      "find_match (current_section st) (file_key l) (entries st) = Some i"
  | (copy) "\<not> is_header l"
      "\<not> in_section st \<or> \<not> has_eq l \<or>
         find_match (current_section st) (file_key l) (entries st) = None"
  by (cases "find_match (current_section st) (file_key l) (entries st)") auto

lemma batch_line_same_keys:
  assumes "same_keys es (entries st)"
  shows "same_keys es (entries (snd (batch_line st l)))"
proof (cases rule: batch_line_cases[where l = l and st = st])
  case header
  then show ?thesis
    using assms by (simp add: batch_line_header same_keys_append_missing)
next
  case (match i)
  then show ?thesis
    using assms by (simp add: batch_line_match same_keys_update)
next
  case copy
  then show ?thesis
    using assms by (simp add: batch_line_copy)
qed


subsection \<open>What the update writes\<close>

lemma subseq_untouched_loop:
  "same_keys es (entries st) \<Longrightarrow>
   subseq (untouched es (in_section st) (current_section st) ls) (fst (batch_loop st ls))"
proof (induction ls arbitrary: st)
  case Nil
  then show ?case by simp
next
  case (Cons l ls)
  obtain o1 st1 where s: "batch_line st l = (o1, st1)" by (cases "batch_line st l")
  obtain o2 st2 where r: "batch_loop st1 ls = (o2, st2)" by (cases "batch_loop st1 ls")
  have k: "same_keys es (entries st1)"
    using batch_line_same_keys[OF Cons.prems, of l] s by simp
  note ih = Cons.IH[OF k, unfolded r fst_conv]
  show ?case
  proof (cases "is_header l")
    case True
    with s have "\<exists>pre. o1 = pre @ [l]" and "in_section st1"
      and "current_section st1 = trim_string (sscanf_section l (current_section st))"
      by (auto simp: batch_line_header)
    then obtain pre where o1: "o1 = pre @ [l]" by blast
    have "subseq (l # untouched es (in_section st1) (current_section st1) ls) (pre @ l # o2)"
      using ih by (intro list_emb_append2) simp
    with True s r o1 \<open>in_section st1\<close>
      \<open>current_section st1 = trim_string (sscanf_section l (current_section st))\<close>
    show ?thesis by simp
  next
    case False
    note nh = this
    show ?thesis
    proof (cases "in_section st \<and> has_eq l \<and>
                  (\<exists>e\<in>set es. section e = current_section st \<and> key e = file_key l)")
      case True
      then have "find_match (current_section st) (file_key l) (entries st) \<noteq> None"
        using same_keys_targets[OF Cons.prems] by (simp add: find_match_None)
      then obtain i where "find_match (current_section st) (file_key l) (entries st) = Some i"
        by auto
      with True nh s have st1: "in_section st1 = in_section st" "current_section st1 = current_section st"
        by (auto simp: batch_line_match)
      have "subseq (untouched es (in_section st1) (current_section st1) ls) (o1 @ o2)"
        using ih by (rule list_emb_append2)
      with True nh s r st1 show ?thesis by simp
    next
      case False
      then have "\<not> in_section st \<or> \<not> has_eq l \<or>
                 find_match (current_section st) (file_key l) (entries st) = None"
        using same_keys_targets[OF Cons.prems] by (auto simp: find_match_None)
      with nh s have "o1 = [l]" "st1 = st"
        using batch_line_copy[of l st] by auto
      with False nh s r ih show ?thesis by auto
    qed
  qed
qed

lemma subseq_untouched_pieces:
  "subseq (untouched es False [] (file_lines D)) (batch_pieces es D)"
proof -
  let ?st0 = "\<lparr>in_section = False, current_section = [],
               entries = map (\<lambda>e. e\<lparr>updated := False\<rparr>) es\<rparr>"
  have "subseq (untouched es (in_section ?st0) (current_section ?st0) (file_lines D))
          (fst (batch_loop ?st0 (file_lines D)))"
    by (rule subseq_untouched_loop) simp
  then show ?thesis
    by (auto simp: batch_pieces_def split: prod.splits intro: list_emb_append_mono[OF _ list_emb_Nil, simplified])
qed

lemma untouched_subset: "set (untouched es i c ls) \<subseteq> set ls"
  by (induction ls arbitrary: i c) auto

lemma key_value_line_last: "key_value_line k v \<noteq> [] \<and> last (key_value_line k v) = CHR 0x0A"
  by (simp add: key_value_line_def)

lemma new_section_text_last: "new_section_text s k v \<noteq> [] \<and> last (new_section_text s k v) = CHR 0x0A"
  by (simp add: new_section_text_def key_value_line_def)

lemma append_missing_keys_last:
  "p \<in> set (fst (append_missing_keys sec es)) \<Longrightarrow> p \<noteq> [] \<and> last p = CHR 0x0A"
  by (auto simp: append_missing_keys_fst key_value_line_last)

lemma missing_sections_last:
  "p \<in> set (missing_sections es) \<Longrightarrow> p \<noteq> [] \<and> last p = CHR 0x0A"
proof (induction es arbitrary: p rule: missing_sections.induct)
  case 1
  then show ?case by simp
next
  case (2 e es)
  show ?case
  proof (cases "updated e")
    case True
    with 2 show ?thesis by simp
  next
    case False
    obtain out es' where a: "append_missing_keys (section e) es = (out, es')"
      by (cases "append_missing_keys (section e) es")
    with False "2.prems" have "p = new_section_text (section e) (key e) (value e) \<or> p \<in> set out \<or>
        p \<in> set (missing_sections es')" by auto
    then show ?thesis
      using new_section_text_last append_missing_keys_last[of p "section e" es] a
        "2.IH"(2)[OF False a[symmetric]] by auto
  qed
qed

lemma batch_line_last:
  assumes "l \<noteq> [] \<and> last l = CHR 0x0A" and "p \<in> set (fst (batch_line st l))"
  shows "p \<noteq> [] \<and> last p = CHR 0x0A"
proof (cases rule: batch_line_cases[where l = l and st = st])
  case header
  with assms(2) have "p = l \<or> (in_section st \<and>
      p \<in> set (fst (append_missing_keys (current_section st) (entries st))))"
    by (auto simp: batch_line_header split: if_splits)
  with assms(1) show ?thesis by (auto dest: append_missing_keys_last)
next
  case (match i)
  with assms(2) show ?thesis by (simp add: batch_line_match key_value_line_last)
next
  case copy
  with assms show ?thesis by (simp add: batch_line_copy)
qed

lemma batch_loop_last:
  "\<forall>l\<in>set ls. l \<noteq> [] \<and> last l = CHR 0x0A \<Longrightarrow> p \<in> set (fst (batch_loop st ls)) \<Longrightarrow>
   p \<noteq> [] \<and> last p = CHR 0x0A"
proof (induction ls arbitrary: st)
  case Nil
  then show ?case by simp
next
  case (Cons l ls)
  obtain o1 st1 where s: "batch_line st l = (o1, st1)" by (cases "batch_line st l")
  obtain o2 st2 where r: "batch_loop st1 ls = (o2, st2)" by (cases "batch_loop st1 ls")
  from Cons.prems(2) s r have "p \<in> set o1 \<or> p \<in> set o2" by auto
  then show ?case
  proof
    assume "p \<in> set o1"
    with batch_line_last[of l p st] s Cons.prems(1) show ?thesis by simp
  next
    assume "p \<in> set o2"
    with Cons.IH[of st1] r Cons.prems(1) show ?thesis by simp
  qed
qed

lemma batch_pieces_last:
  assumes "\<forall>l\<in>set (file_lines D). l \<noteq> [] \<and> last l = CHR 0x0A" and "p \<in> set (batch_pieces es D)"
  shows "p \<noteq> [] \<and> last p = CHR 0x0A"
proof -
  let ?st0 = "\<lparr>in_section = False, current_section = [],
               entries = map (\<lambda>e. e\<lparr>updated := False\<rparr>) es\<rparr>"
  obtain o1 st where l: "batch_loop ?st0 (file_lines D) = (o1, st)"
    by (cases "batch_loop ?st0 (file_lines D)")
  obtain o2 es2 where a: "append_missing_keys (current_section st) (entries st) = (o2, es2)"
    by (cases "append_missing_keys (current_section st) (entries st)")
  from assms(2) l a have "p \<in> set o1 \<or> p \<in> set (fst (append_missing_keys (current_section st) (entries st)))
      \<or> (\<exists>es2. p \<in> set (missing_sections es2))"
    by (cases "in_section st") (auto simp: batch_pieces_def)
  then show ?thesis
  proof (elim disjE exE)
    assume "p \<in> set o1"
    with batch_loop_last[OF assms(1), of p ?st0] l show ?thesis by simp
  next
    assume "p \<in> set (fst (append_missing_keys (current_section st) (entries st)))"
    then show ?thesis by (rule append_missing_keys_last)
  next
    fix es2 assume "p \<in> set (missing_sections es2)"
    then show ?thesis by (rule missing_sections_last)
  qed
qed

lemma subseq_read_lines:
  "subseq qs ps \<Longrightarrow> \<forall>q\<in>set qs. whole_line q \<Longrightarrow>
   subseq qs (concat (map read_lines ps))"
proof (induction rule: list_emb.induct)
  case (list_emb_Nil ys)
  then show ?case by simp
next
  case (list_emb_Cons xs ys y)
  then have "subseq xs (concat (map read_lines ys))" by simp
  then have "subseq xs (read_lines y @ concat (map read_lines ys))" by (rule list_emb_append2)
  then show ?case by simp
next
  case (list_emb_Cons2 x y xs ys)
  then have "read_lines y = [y]" by (simp add: read_lines_whole)
  with list_emb_Cons2 show ?case by simp
qed

lemma complete_document_lines:
  assumes "complete_document D"
  shows "file_lines D = read_lines D" and "\<forall>l\<in>set (read_lines D). whole_line l"
    and "\<forall>l\<in>set (read_lines D). CHR 0x00 \<notin> set l"
proof -
  show n: "\<forall>l\<in>set (read_lines D). CHR 0x00 \<notin> set l"
    using assms by (simp add: complete_document_def complete_line_def)
  show "file_lines D = read_lines D"
    unfolding file_lines_def using n by (intro map_idI) (simp add: cstr_id)
  show "\<forall>l\<in>set (read_lines D). whole_line l"
    using assms by (auto simp: complete_document_def complete_line_def intro: whole_lineI)
qed

lemma fgets_full:
  "CHR 0x0A \<notin> set b \<Longrightarrow> length b = n \<Longrightarrow> fgets n (b @ r) = (b, r)"
proof (induction b arbitrary: n)
  case Nil
  then show ?case by simp
next
  case (Cons c b)
  then obtain m where n: "n = Suc m" by (cases n) auto
  with Cons.prems have "fgets m (b @ r) = (b, r)" by (intro Cons.IH) auto
  with Cons.prems n show ?case by auto
qed

lemma doc_lines_line:
  "CHR 0x0A \<notin> set b \<Longrightarrow> doc_lines (b @ CHR 0x0A # r) = (b @ [CHR 0x0A]) # doc_lines r"
  by (induction b) auto

subsection \<open>The written lines, read again\<close>

lemma is_trail_space [simp]: "is_trail CHR '' ''" "is_trail CHR 0x0A" "is_trail CHR 0x0D"
  by (simp_all add: is_trail_def)

lemma is_lead_space [simp]: "is_lead CHR '' ''" "\<not> is_lead CHR 0x0A" "\<not> is_lead CHR 0x0D"
  by (simp_all add: is_lead_def)

lemma key_value_line_header: "key_ok k \<Longrightarrow> \<not> is_header (key_value_line k v)"
  by (cases k) (simp_all add: key_ok_def is_header_def key_value_line_def)

lemma key_value_line_has_eq: "has_eq (key_value_line k v)"
  by (simp add: has_eq_def key_value_line_def)

lemma takeWhile_key:
  "CHR ''='' \<notin> set k \<Longrightarrow> takeWhile (\<lambda>c. c \<noteq> CHR ''='') (k @ '' = '' @ r) = k @ '' ''"
proof -
  assume a: "CHR ''='' \<notin> set k"
  have "takeWhile (\<lambda>c. c \<noteq> CHR ''='') ((k @ '' '') @ CHR ''='' # '' '' @ r) =
        takeWhile (\<lambda>c. c \<noteq> CHR ''='') (k @ '' '')"
    by (rule takeWhile_tail) simp
  also have "\<dots> = k @ '' ''" using a by auto
  finally show ?thesis by simp
qed

lemma key_value_line_key: "key_ok k \<Longrightarrow> file_key (key_value_line k v) = k"
proof -
  assume k: "key_ok k"
  then have "takeWhile (\<lambda>c. c \<noteq> CHR ''='') (key_value_line k v) = k @ '' ''"
    unfolding key_value_line_def by (intro takeWhile_key) (simp add: key_ok_def)
  moreover have "length (k @ '' '') \<le> 127" using k by (simp add: key_ok_def)
  then have "take 127 (k @ '' '') = k @ '' ''" by (rule take_all)
  moreover have "trim_string (k @ '' '') = trim_string k"
    by (rule trim_string_append_trail) simp
  ultimately show ?thesis using k by (simp add: file_key_def key_ok_def)
qed

lemma key_value_line_whole:
  assumes "key_ok k" and "value_ok v"
  shows "whole_line (key_value_line k v)" and "CHR 0x00 \<notin> set (key_value_line k v)"
proof -
  have "key_value_line k v = (k @ '' = '' @ v) @ [CHR 0x0A]" by (simp add: key_value_line_def)
  moreover have "CHR 0x0A \<notin> set (k @ '' = '' @ v)"
    using assms by (simp add: key_ok_def value_ok_def plain_def)
  moreover have "length (k @ '' = '' @ v) < 511"
    using assms by (simp add: key_ok_def value_ok_def)
  ultimately show "whole_line (key_value_line k v)" unfolding whole_line_def by blast
  show "CHR 0x00 \<notin> set (key_value_line k v)"
    using assms by (simp add: key_ok_def value_ok_def plain_def key_value_line_def)
qed

lemma new_section_text_lines:
  "new_section_text s k v = ''\<newline>'' @ header_line s @ key_value_line k v"
  by (simp add: new_section_text_def header_line_def)

lemma header_line_header: "is_header (header_line s)"
  by (simp add: header_line_def is_header_def)

lemma header_line_name:
  assumes "section_ok s"
  shows "trim_string (sscanf_section (header_line s) current) = s"
proof -
  have "takeWhile (\<lambda>c. c \<noteq> CHR '']'') (s @ CHR '']'' # ''\<newline>'') =
        takeWhile (\<lambda>c. c \<noteq> CHR '']'') s"
    by (rule takeWhile_tail) simp
  also have "\<dots> = s" using assms by (auto simp: section_ok_def)
  finally have "takeWhile (\<lambda>c. c \<noteq> CHR '']'') (s @ CHR '']'' # ''\<newline>'') = s" .
  then have "takeWhile (\<lambda>c. c \<noteq> CHR '']'') (tl (header_line s)) = s"
    by (simp add: header_line_def)
  moreover have "take 127 s = s" using assms by (intro take_all) (simp add: section_ok_def)
  ultimately show ?thesis using assms by (simp add: sscanf_section_def section_ok_def)
qed

lemma header_line_whole:
  assumes "section_ok s"
  shows "whole_line (header_line s)" and "CHR 0x00 \<notin> set (header_line s)"
proof -
  have "header_line s = (''['' @ s @ '']'') @ [CHR 0x0A]" by (simp add: header_line_def)
  moreover have "CHR 0x0A \<notin> set (''['' @ s @ '']'')"
    using assms by (simp add: section_ok_def plain_def)
  moreover have "length (''['' @ s @ '']'') < 511"
    using assms by (simp add: section_ok_def)
  ultimately show "whole_line (header_line s)" unfolding whole_line_def by blast
  show "CHR 0x00 \<notin> set (header_line s)"
    using assms by (simp add: section_ok_def plain_def header_line_def)
qed

lemma empty_line_whole: "whole_line ''\<newline>''"
  unfolding whole_line_def by (rule exI[of _ "[]"]) simp

lemma read_lines_new_section_text:
  assumes "section_ok s" and "key_ok k" and "value_ok v"
  shows "read_lines (new_section_text s k v) = [''\<newline>'', header_line s, key_value_line k v]"
proof -
  have "read_lines (concat [''\<newline>'', header_line s, key_value_line k v]) =
          [''\<newline>'', header_line s, key_value_line k v]"
    using assms empty_line_whole header_line_whole(1) key_value_line_whole(1)
    by (intro read_lines_concat_whole) simp
  then show ?thesis by (simp add: new_section_text_lines)
qed

subsection \<open>One entry\<close>

lemma append_missing_keys_single:
  "append_missing_keys sec [e] =
     (if \<not> updated e \<and> section e = sec
      then ([key_value_line (key e) (value e)], [e\<lparr>updated := True\<rparr>]) else ([], [e]))"
  by simp

lemma find_match_single:
  "find_match sec k [e] = (if section e = sec \<and> key e = k then Some 0 else None)"
  by simp

lemma batch_line_single_kv:
  assumes "entries st = [e]" and "key_ok (key e)" and "in_section st"
    and "section e = current_section st"
  shows "batch_line st (key_value_line (key e) (value e)) =
           ([key_value_line (key e) (value e)], st\<lparr>entries := [e\<lparr>updated := True\<rparr>]\<rparr>)"
proof -
  let ?kv = "key_value_line (key e) (value e)"
  have "find_match (current_section st) (file_key ?kv) (entries st) = Some 0"
    using assms by (simp add: key_value_line_key)
  from batch_line_match[OF key_value_line_header[OF assms(2)] assms(3) key_value_line_has_eq this]
  show ?thesis using assms(1) by simp
qed

lemma batch_line_single_entries:
  assumes "entries st = [e]"
  shows "\<exists>b. entries (snd (batch_line st l)) = [e\<lparr>updated := b\<rparr>]"
proof (cases rule: batch_line_cases[where l = l and st = st])
  case header
  then show ?thesis
    using assms by (auto simp: batch_line_header intro: exI[of _ True] exI[of _ "updated e"])
next
  case (match i)
  then have "i = 0" using find_match_Some[of "current_section st" "file_key l" "[e]" i] assms
    by simp
  with match assms show ?thesis by (auto simp: batch_line_match)
next
  case copy
  then show ?thesis using assms by (auto simp: batch_line_copy intro: exI[of _ "updated e"])
qed

lemma batch_line_idem:
  assumes "entries st = [e]" and "key_ok (key e)"
    and "batch_line st l = (ps, st')"
  shows "batch_loop st ps = (ps, st')"
proof (cases rule: batch_line_cases[where l = l and st = st])
  case header
  show ?thesis
  proof (cases "in_section st \<and> \<not> updated e \<and> section e = current_section st")
    case True
    let ?kv = "key_value_line (key e) (value e)"
    let ?st1 = "st\<lparr>entries := [e\<lparr>updated := True\<rparr>]\<rparr>"
    from True header assms have ps: "ps = [?kv, l]"
      and st': "st' = \<lparr>in_section = True,
          current_section = trim_string (sscanf_section l (current_section st)),
          entries = [e\<lparr>updated := True\<rparr>]\<rparr>"
      by (auto simp: batch_line_header)
    have a: "batch_line st ?kv = ([?kv], ?st1)"
      using assms True by (intro batch_line_single_kv) simp_all
    have b: "batch_line ?st1 l = ([l], st')"
      using header True st' by (simp add: batch_line_header)
    show ?thesis unfolding ps using a b by simp
  next
    case False
    with header assms have "ps = [l]"
      by (auto simp: batch_line_header)
    with assms show ?thesis by simp
  qed
next
  case (match i)
  then have i: "i = 0" and se: "section e = current_section st"
    using find_match_Some[of "current_section st" "file_key l" "[e]" i] assms by auto
  from match i assms have ps: "ps = [key_value_line (key e) (value e)]"
    and st': "st' = st\<lparr>entries := [e\<lparr>updated := True\<rparr>]\<rparr>"
    by (auto simp: batch_line_match)
  from batch_line_single_kv[OF assms(1,2) match(2) se] show ?thesis
    unfolding ps st' by simp
next
  case copy
  with assms have "ps = [l]" by (auto simp: batch_line_copy)
  with assms show ?thesis by simp
qed

lemma batch_loop_idem:
  assumes "entries st = [e]" and "key_ok (key e)" and "batch_loop st ls = (ps, st')"
  shows "batch_loop st ps = (ps, st') \<and> (\<exists>b. entries st' = [e\<lparr>updated := b\<rparr>])"
  using assms
proof (induction ls arbitrary: st e ps st')
  case Nil
  then show ?case by (auto intro: exI[of _ "updated e"])
next
  case (Cons l ls)
  obtain o1 st1 where s: "batch_line st l = (o1, st1)" by (cases "batch_line st l")
  obtain o2 st2 where r: "batch_loop st1 ls = (o2, st2)" by (cases "batch_loop st1 ls")
  from Cons.prems(3) s r have ps: "ps = o1 @ o2" and st': "st' = st2" by simp_all
  from batch_line_single_entries[OF Cons.prems(1), of l] s
  obtain b where e1: "entries st1 = [e\<lparr>updated := b\<rparr>]" by auto
  have k1: "key_ok (key (e\<lparr>updated := b\<rparr>))" using Cons.prems(2) by simp
  from Cons.IH[OF e1 k1 r] obtain b' where i2: "batch_loop st1 o2 = (o2, st2)"
    and e2: "entries st2 = [e\<lparr>updated := b'\<rparr>]" by auto
  from batch_line_idem[OF Cons.prems(1,2) s] have i1: "batch_loop st o1 = (o1, st1)" .
  have "batch_loop st (o1 @ o2) = (o1 @ o2, st2)"
    by (simp add: batch_loop_append i1 i2)
  with ps st' e2 show ?case by auto
qed

lemma batch_loop_whole:
  assumes "entries st = [e]" and "key_ok (key e)" and "value_ok (value e)"
    and "\<forall>l\<in>set ls. whole_line l \<and> CHR 0x00 \<notin> set l"
    and "p \<in> set (fst (batch_loop st ls))"
  shows "whole_line p \<and> CHR 0x00 \<notin> set p"
  using assms
proof (induction ls arbitrary: st e)
  case Nil
  then show ?case by simp
next
  case (Cons l ls)
  obtain o1 st1 where s: "batch_line st l = (o1, st1)" by (cases "batch_line st l")
  obtain o2 st2 where r: "batch_loop st1 ls = (o2, st2)" by (cases "batch_loop st1 ls")
  from batch_line_single_entries[OF Cons.prems(1), of l] s
  obtain b where e1: "entries st1 = [e\<lparr>updated := b\<rparr>]" by auto
  from Cons.prems(5) s r have "p \<in> set o1 \<or> p \<in> set o2" by auto
  then show ?case
  proof
    assume p: "p \<in> set o1"
    have "p = l \<or> p = key_value_line (key e) (value e)"
    proof (cases rule: batch_line_cases[where l = l and st = st])
      case header
      with p s Cons.prems(1) show ?thesis
        by (auto simp: batch_line_header split: if_splits)
    next
      case (match i)
      then have "i = 0" using find_match_Some[of "current_section st" "file_key l" "[e]" i] Cons.prems(1)
        by simp
      with match p s Cons.prems(1) show ?thesis by (auto simp: batch_line_match)
    next
      case copy
      with p s show ?thesis by (auto simp: batch_line_copy)
    qed
    with Cons.prems(2,3,4) key_value_line_whole[of "key e" "value e"] show ?thesis by auto
  next
    assume "p \<in> set o2"
    with Cons.IH[OF e1] r Cons.prems(2,3,4) show ?thesis by simp
  qed
qed

lemma file_lines_concat_whole:
  assumes "\<forall>l\<in>set ls. whole_line l \<and> CHR 0x00 \<notin> set l"
  shows "file_lines (concat ls) = ls"
proof -
  have "read_lines (concat ls) = ls" using assms by (intro read_lines_concat_whole) simp
  moreover have "map cstr ls = ls" using assms by (intro map_idI) (simp add: cstr_id)
  ultimately show ?thesis by (simp add: file_lines_def)
qed

lemma batch_pieces_single:
  assumes "batch_loop \<lparr>in_section = False, current_section = [],
              entries = [e\<lparr>updated := False\<rparr>]\<rparr> (file_lines D) = (o1, st1)"
    and "entries st1 = [e1]"
  shows "batch_pieces [e] D = o1 @ single_tail st1 e1"
proof -
  have "(case (if in_section st1 then append_missing_keys (current_section st1) [e1]
               else ([], [e1])) of (out2, es2) \<Rightarrow> o1 @ out2 @ missing_sections es2) =
        o1 @ single_tail st1 e1"
    by (simp add: single_tail_def)
  then show ?thesis
    using assms by (simp only: batch_pieces_def list.map prod.case)
qed


lemma count_key_kv:
  "key_ok K \<Longrightarrow>
   count_key S K i c (key_value_line K v # xs) =
     (if i \<and> c = S then 1 else 0) + count_key S K i c xs"
  by (simp add: key_value_line_header key_value_line_has_eq key_value_line_key)

lemma count_key_header:
  "is_header l \<Longrightarrow>
   count_key S K i c (l # xs) = count_key S K True (trim_string (sscanf_section l c)) xs"
  by simp

lemma count_key_line:
  "\<not> is_header l \<Longrightarrow>
   count_key S K i c (l # xs) =
     (if i \<and> c = S \<and> has_eq l \<and> file_key l = K then 1 else 0) + count_key S K i c xs"
  by simp

lemma in_first_run_header:
  "is_header l \<Longrightarrow>
   in_first_run S K i c (l # xs) =
     (if i \<and> c = S then False
      else in_first_run S K True (trim_string (sscanf_section l c)) xs)"
  by simp

lemma in_first_run_line:
  "\<not> is_header l \<Longrightarrow>
   in_first_run S K i c (l # xs) =
     (if i \<and> c = S \<and> has_eq l \<and> file_key l = K then True else in_first_run S K i c xs)"
  by simp

declare count_key.simps(2) [simp del] in_first_run.simps(2) [simp del]

lemma count_loop:
  assumes "entries st = [e]" and "section e = S" and "key e = K" and "key_ok K"
    and "batch_loop st ls = (ps, st')"
  shows "\<exists>b. entries st' = [e\<lparr>updated := b\<rparr>] \<and> (updated e \<longrightarrow> b) \<and>
           (in_first_run S K (in_section st) (current_section st) ls \<longrightarrow> b) \<and>
           (\<forall>rest. count_key S K (in_section st) (current_section st) (ps @ rest) =
              count_key S K (in_section st) (current_section st) ls +
              (if \<not> updated e \<and> b \<and>
                  \<not> in_first_run S K (in_section st) (current_section st) ls then 1 else 0) +
              count_key S K (in_section st') (current_section st') rest)"
  using assms
proof (induction ls arbitrary: st e ps st')
  case Nil
  then show ?case by (auto intro!: exI[of _ "updated e"])
next
  case (Cons l ls)
  obtain o1 st1 where s: "batch_line st l = (o1, st1)" by (cases "batch_line st l")
  obtain o2 st2 where r: "batch_loop st1 ls = (o2, st2)" by (cases "batch_loop st1 ls")
  from Cons.prems(5) s r have ps: "ps = o1 @ o2" and st': "st' = st2" by simp_all
  define i where "i = in_section st"
  define c where "c = current_section st"
  define u where "u = updated e"
  define kv where "kv = key_value_line K (value e)"
  note e = Cons.prems(1) and eS = Cons.prems(2) and eK = Cons.prems(3) and kok = Cons.prems(4)
  have ih: "\<exists>b. entries st2 = [e1\<lparr>updated := b\<rparr>] \<and> (updated e1 \<longrightarrow> b) \<and>
           (in_first_run S K (in_section st1) (current_section st1) ls \<longrightarrow> b) \<and>
           (\<forall>rest. count_key S K (in_section st1) (current_section st1) (o2 @ rest) =
              count_key S K (in_section st1) (current_section st1) ls +
              (if \<not> updated e1 \<and> b \<and>
                  \<not> in_first_run S K (in_section st1) (current_section st1) ls then 1 else 0) +
              count_key S K (in_section st2) (current_section st2) rest)"
    if "entries st1 = [e1]" "section e1 = S" "key e1 = K" for e1
    using Cons.IH[OF that kok r] .
  show ?case
  proof (cases rule: batch_line_cases[where l = l and st = st])
    case header
    define c' where "c' = trim_string (sscanf_section l c)"
    show ?thesis
    proof (cases "i \<and> \<not> u \<and> c = S")
      case True
      let ?e1 = "e\<lparr>updated := True\<rparr>"
      from True header s e eS eK have o1: "o1 = [kv, l]" and e1: "entries st1 = [?e1]"
        and i1: "in_section st1 = True" and c1: "current_section st1 = c'"
        by (auto simp: batch_line_header i_def u_def c_def kv_def c'_def)
      from ih[OF e1] eS eK obtain b where b: "entries st2 = [?e1\<lparr>updated := b\<rparr>]" "b"
        and cnt: "\<And>rest. count_key S K True c' (o2 @ rest) =
              count_key S K True c' ls + count_key S K (in_section st2) (current_section st2) rest"
        by (auto simp: i1 c1)
      have "count_key S K i c ((o1 @ o2) @ rest) =
              count_key S K i c (l # ls) + 1 +
              count_key S K (in_section st2) (current_section st2) rest" for rest
        using True header kok cnt[of rest]
        by (simp add: o1 kv_def count_key_kv count_key_header c'_def)
      moreover have "\<not> in_first_run S K i c (l # ls)"
        using True header by (simp add: in_first_run_header)
      ultimately show ?thesis
        using b True unfolding ps st' i_def[symmetric] c_def[symmetric] u_def[symmetric]
        by (intro exI[of _ True]) (simp add: u_def)
    next
      case False
      from False header s e eS have o1: "o1 = [l]" and e1: "entries st1 = [e]"
        and i1: "in_section st1 = True" and c1: "current_section st1 = c'"
        by (auto simp: batch_line_header i_def u_def c_def c'_def)
      from ih[OF e1 eS eK] obtain b where b: "entries st2 = [e\<lparr>updated := b\<rparr>]" "u \<longrightarrow> b"
        "in_first_run S K True c' ls \<longrightarrow> b"
        and cnt: "\<And>rest. count_key S K True c' (o2 @ rest) =
              count_key S K True c' ls +
              (if \<not> u \<and> b \<and> \<not> in_first_run S K True c' ls then 1 else 0) +
              count_key S K (in_section st2) (current_section st2) rest"
        by (auto simp: i1 c1 u_def)
      have f: "in_first_run S K i c (l # ls) = (if i \<and> c = S then False else in_first_run S K True c' ls)"
        using header by (simp add: in_first_run_header c'_def)
      have k: "count_key S K i c ((o1 @ o2) @ rest) = count_key S K True c' (o2 @ rest)" for rest
        using header by (simp add: o1 count_key_header c'_def)
      have k2: "count_key S K i c (l # ls) = count_key S K True c' ls"
        using header by (simp add: count_key_header c'_def)
      have "(if \<not> u \<and> b \<and> \<not> in_first_run S K True c' ls then 1 else 0) =
            (if \<not> u \<and> b \<and> \<not> in_first_run S K i c (l # ls) then 1 else (0::nat))"
        using False f by auto
      with cnt k k2 have "count_key S K i c ((o1 @ o2) @ rest) =
              count_key S K i c (l # ls) +
              (if \<not> u \<and> b \<and> \<not> in_first_run S K i c (l # ls) then 1 else 0) +
              count_key S K (in_section st2) (current_section st2) rest" for rest
        by simp
      moreover have "in_first_run S K i c (l # ls) \<longrightarrow> b" using f b(3) by simp
      ultimately show ?thesis
        using b(1,2) unfolding ps st' i_def[symmetric] c_def[symmetric] u_def[symmetric]
        by (intro exI[of _ b]) simp
    qed
  next
    case (match j)
    then have j: "j = 0" and cS: "c = S" and fk: "file_key l = K"
      using find_match_Some[of "current_section st" "file_key l" "[e]" j] e eS eK
      by (auto simp: c_def)
    let ?e1 = "e\<lparr>updated := True\<rparr>"
    from match j s e eK have o1: "o1 = [kv]" and e1: "entries st1 = [?e1]"
      and i1: "in_section st1 = i" and c1: "current_section st1 = c"
      by (auto simp: batch_line_match i_def c_def kv_def)
    have it: "i" using match(2) by (simp add: i_def)
    from ih[OF e1] eS eK obtain b where b: "entries st2 = [?e1\<lparr>updated := b\<rparr>]" "b"
      and cnt: "\<And>rest. count_key S K i c (o2 @ rest) =
              count_key S K i c ls + count_key S K (in_section st2) (current_section st2) rest"
      by (auto simp: i1 c1)
    have "count_key S K i c ((o1 @ o2) @ rest) =
              count_key S K i c (l # ls) +
              count_key S K (in_section st2) (current_section st2) rest" for rest
      using match(1,3) it cS fk kok cnt[of rest]
      by (simp add: o1 kv_def count_key_kv count_key_line)
    moreover have "in_first_run S K i c (l # ls)"
      using match(1,3) it cS fk by (simp add: in_first_run_line)
    ultimately show ?thesis
      using b unfolding ps st' i_def[symmetric] c_def[symmetric] u_def[symmetric]
      by (intro exI[of _ True]) simp
  next
    case copy
    then have o1: "o1 = [l]" and st1: "st1 = st" using s by (auto simp: batch_line_copy)
    from copy(2) e eS eK have nm: "\<not> (i \<and> c = S \<and> has_eq l \<and> file_key l = K)"
      by (auto simp: i_def c_def)
    from ih[of e] e eS eK st1 obtain b where b: "entries st2 = [e\<lparr>updated := b\<rparr>]" "u \<longrightarrow> b"
        "in_first_run S K i c ls \<longrightarrow> b"
        and cnt: "\<And>rest. count_key S K i c (o2 @ rest) =
              count_key S K i c ls +
              (if \<not> u \<and> b \<and> \<not> in_first_run S K i c ls then 1 else 0) +
              count_key S K (in_section st2) (current_section st2) rest"
      by (auto simp: i_def c_def u_def)
    have f: "in_first_run S K i c (l # ls) = in_first_run S K i c ls"
      using in_first_run_line[OF copy(1), of S K i c ls] nm by auto
    have g: "count_key S K i c (l # xs) = count_key S K i c xs" for xs
      using count_key_line[OF copy(1), of S K i c xs] nm by auto
    have "count_key S K i c ((o1 @ o2) @ rest) =
              count_key S K i c (l # ls) +
              (if \<not> u \<and> b \<and> \<not> in_first_run S K i c (l # ls) then 1 else 0) +
              count_key S K (in_section st2) (current_section st2) rest" for rest
      using cnt[of rest] by (simp add: o1 f g)
    then show ?thesis
      using b f unfolding ps st' i_def[symmetric] c_def[symmetric] u_def[symmetric]
      by (intro exI[of _ b]) simp
  qed
qed

subsection \<open>The reader, line by line\<close>

lemma read_loop_header:
  "is_header (strip_eol raw) \<Longrightarrow>
   read_loop S K n i c (raw # ls) =
     read_loop S K n (trim_string (sscanf_section (strip_eol raw) c) = S)
       (trim_string (sscanf_section (strip_eol raw) c)) ls"
  by (simp add: Let_def)

lemma read_loop_hit:
  "\<not> is_header (strip_eol raw) \<Longrightarrow> i \<Longrightarrow> has_eq (strip_eol raw) \<Longrightarrow>
   file_key (strip_eol raw) = K \<Longrightarrow>
   read_loop S K n i c (raw # ls) = Some (take (n - 1) (file_value (strip_eol raw)))"
  by (simp add: Let_def)

lemma read_loop_skip:
  "\<not> is_header (strip_eol raw) \<Longrightarrow>
   \<not> (i \<and> has_eq (strip_eol raw) \<and> file_key (strip_eol raw) = K) \<Longrightarrow>
   read_loop S K n i c (raw # ls) = read_loop S K n i c ls"
  by (auto simp: Let_def)

declare read_loop.simps(2) [simp del]

lemma strip_eol_plain: "plain s \<Longrightarrow> strip_eol (s @ CHR 0x0A # r) = s"
proof -
  assume "plain s"
  then have a: "\<forall>c\<in>set s. c \<noteq> CHR 0x0D \<and> c \<noteq> CHR 0x0A" by (auto simp: plain_def)
  have "takeWhile (\<lambda>c. c \<noteq> CHR 0x0D \<and> c \<noteq> CHR 0x0A) (s @ CHR 0x0A # r) =
        takeWhile (\<lambda>c. c \<noteq> CHR 0x0D \<and> c \<noteq> CHR 0x0A) s"
    by (rule takeWhile_tail) simp
  also have "\<dots> = s" using a by simp
  finally show ?thesis by (simp add: strip_eol_def)
qed

lemma plain_append [simp]: "plain (a @ b) \<longleftrightarrow> plain a \<and> plain b"
  by (auto simp: plain_def)

lemma plain_Nil [simp]: "plain []"
  by (simp add: plain_def)

lemma plain_Cons [simp]:
  "plain (c # s) \<longleftrightarrow> c \<noteq> CHR 0x0A \<and> c \<noteq> CHR 0x0D \<and> c \<noteq> CHR 0x00 \<and> plain s"
  by (auto simp: plain_def)

lemma strip_eol_key_value_line:
  "plain k \<Longrightarrow> plain v \<Longrightarrow> strip_eol (key_value_line k v) = k @ '' = '' @ v"
  using strip_eol_plain[of "k @ '' = '' @ v" "[]"] by (simp add: key_value_line_def)

lemma file_key_written:
  assumes "key_ok k"
  shows "file_key (k @ CHR '' '' # CHR ''='' # CHR '' '' # v) = k"
proof -
  have "file_key (k @ '' = '' @ (v @ ''\<newline>'')) = k"
    using key_value_line_key[OF assms, of v] by (simp add: key_value_line_def)
  moreover have "takeWhile (\<lambda>c. c \<noteq> CHR ''='') (k @ '' = '' @ x) = k @ '' ''" for x
    using assms by (intro takeWhile_key) (simp add: key_ok_def)
  ultimately show ?thesis by (simp add: file_key_def)
qed

lemma file_value_written:
  assumes "CHR ''='' \<notin> set k" and "length v < 255" and "trim_string v = v"
  shows "file_value (k @ CHR '' '' # CHR ''='' # CHR '' '' # v) = v"
proof -
  have "dropWhile (\<lambda>c. c \<noteq> CHR ''='') (k @ CHR '' '' # CHR ''='' # CHR '' '' # v) =
        dropWhile (\<lambda>c. c \<noteq> CHR ''='') (CHR '' '' # CHR ''='' # CHR '' '' # v)"
    using assms(1) by (intro dropWhile_append2) auto
  then have "tl (dropWhile (\<lambda>c. c \<noteq> CHR ''='') (k @ '' = '' @ v)) = CHR '' '' # v" by simp
  moreover have "take 255 (CHR '' '' # v) = CHR '' '' # v"
    using assms(2) by (intro take_all) simp
  moreover have "trim_string (CHR '' '' # v) = trim_string v"
    by (rule trim_string_lead) simp
  ultimately show ?thesis using assms(3) by (simp add: file_value_def)
qed

lemma not_header_written:
  "key_ok k \<Longrightarrow> \<not> is_header (k @ CHR '' '' # CHR ''='' # CHR '' '' # v)"
  by (cases k) (simp_all add: key_ok_def is_header_def)

lemma has_eq_written: "has_eq (k @ CHR '' '' # CHR ''='' # CHR '' '' # v)"
  by (simp add: has_eq_def)

lemma read_loop_kv_other:
  assumes "key_ok k" and "plain v" and "\<not> (i \<and> k = K)"
  shows "read_loop S K n i c (key_value_line k v # ls) = read_loop S K n i c ls"
proof -
  have p: "plain k" using assms(1) by (simp add: key_ok_def)
  show ?thesis
    using assms
    by (intro read_loop_skip)
       (simp_all add: strip_eol_key_value_line[OF p assms(2)] not_header_written file_key_written)
qed

lemma read_loop_kv_hit:
  assumes "key_ok K" and "value_reads v n"
  shows "read_loop S K n True c (key_value_line K v # ls) = Some v"
proof -
  have p: "plain K" "plain v" using assms by (simp_all add: key_ok_def value_reads_def)
  have "read_loop S K n True c (key_value_line K v # ls) =
          Some (take (n - 1) (file_value (strip_eol (key_value_line K v))))"
    using assms(1)
    by (intro read_loop_hit)
       (simp_all add: strip_eol_key_value_line[OF p] not_header_written file_key_written
                      has_eq_written)
  moreover have "file_value (K @ CHR '' '' # CHR ''='' # CHR '' '' # v) = v"
    using assms by (intro file_value_written) (simp_all add: key_ok_def value_reads_def)
  moreover have "length v \<le> n - 1"
    using assms(2) by (auto simp: value_reads_def)
  then have "take (n - 1) v = v" by (rule take_all)
  ultimately show ?thesis by (simp add: strip_eol_key_value_line[OF p])
qed

lemma strip_eol_header_line: "plain s \<Longrightarrow> strip_eol (header_line s) = ''['' @ s @ '']''"
  using strip_eol_plain[of "''['' @ s @ '']''" "[]"] by (simp add: header_line_def plain_def)

lemma read_loop_header_line:
  assumes "section_ok s"
  shows "read_loop S K n i c (header_line s # ls) = read_loop S K n (s = S) s ls"
proof -
  have p: "plain s" using assms by (simp add: section_ok_def)
  have h: "is_header (strip_eol (header_line s))"
    by (simp add: strip_eol_header_line[OF p] is_header_def)
  have "takeWhile (\<lambda>c. c \<noteq> CHR '']'') (s @ '']'') = takeWhile (\<lambda>c. c \<noteq> CHR '']'') s"
    using takeWhile_tail[of "\<lambda>c. c \<noteq> CHR '']''" "CHR '']''" s "[]"] by simp
  also have "\<dots> = s" using assms by (auto simp: section_ok_def)
  finally have "takeWhile (\<lambda>c. c \<noteq> CHR '']'') (tl (strip_eol (header_line s))) = s"
    by (simp add: strip_eol_header_line[OF p])
  moreover have "take 127 s = s" using assms by (intro take_all) (simp add: section_ok_def)
  ultimately have "trim_string (sscanf_section (strip_eol (header_line s)) c) = s"
    using assms by (simp add: sscanf_section_def section_ok_def)
  with read_loop_header[OF h, of S K n i c ls] show ?thesis by simp
qed

lemma read_loop_empty_line:
  "read_loop S K n i c (''\<newline>'' # ls) = read_loop S K n i c ls"
  by (intro read_loop_skip) (simp_all add: strip_eol_def is_header_def has_eq_def)

subsection \<open>Text lines: the reader and the update loop agree\<close>

lemma text_line_parts:
  assumes "text_line l"
  obtains t where "l = strip_eol l @ t" and "t = [CHR 0x0A] \<or> t = [CHR 0x0D, CHR 0x0A]"
    and "CHR 0x00 \<notin> set l"
  using assms unfolding text_line_def by blast

lemma text_line_header: "text_line l \<Longrightarrow> is_header (strip_eol l) = is_header l"
proof -
  assume "text_line l"
  then obtain t where l: "l = strip_eol l @ t" and t: "t = [CHR 0x0A] \<or> t = [CHR 0x0D, CHR 0x0A]"
    by (rule text_line_parts)
  show ?thesis
  proof (cases "strip_eol l")
    case Nil
    with l t show ?thesis by (auto simp: is_header_def)
  next
    case (Cons a b)
    with l have "l = a # b @ t" by simp
    with Cons show ?thesis by (simp add: is_header_def)
  qed
qed

lemma text_line_has_eq: "text_line l \<Longrightarrow> has_eq (strip_eol l) = has_eq l"
proof -
  assume "text_line l"
  then obtain t where l: "l = strip_eol l @ t" and t: "t = [CHR 0x0A] \<or> t = [CHR 0x0D, CHR 0x0A]"
    by (rule text_line_parts)
  have "set l = set (strip_eol l) \<union> set t" by (subst l) simp
  with t show ?thesis by (auto simp: has_eq_def)
qed

lemma text_line_key:
  assumes "text_line l" and "has_eq l"
  shows "file_key (strip_eol l) = file_key l"
proof -
  from assms(1) obtain t where l: "l = strip_eol l @ t" by (rule text_line_parts)
  from assms have "has_eq (strip_eol l)" by (simp add: text_line_has_eq)
  then obtain x where "x \<in> set (strip_eol l)" "\<not> x \<noteq> CHR ''=''"
    by (auto simp: has_eq_def)
  then have "takeWhile (\<lambda>c. c \<noteq> CHR ''='') (strip_eol l @ t) =
             takeWhile (\<lambda>c. c \<noteq> CHR ''='') (strip_eol l)"
    by (rule takeWhile_append1)
  with l show ?thesis by (simp add: file_key_def)
qed

lemma text_line_whole:
  assumes "l \<in> set (read_lines D)" and "text_line l"
  shows "whole_line l" and "CHR 0x00 \<notin> set l"
proof -
  from assms(2) obtain t where l: "l = strip_eol l @ t"
    and t: "t = [CHR 0x0A] \<or> t = [CHR 0x0D, CHR 0x0A]" and n: "CHR 0x00 \<notin> set l"
    by (rule text_line_parts)
  from t have "last (strip_eol l @ t) = CHR 0x0A" by auto
  with l have "last l = CHR 0x0A" by simp
  with assms(1) show "whole_line l" by (rule whole_lineI)
  show "CHR 0x00 \<notin> set l" by (rule n)
qed

lemma header_names_agree:
  assumes "text_line l" and "is_header l"
  shows "(\<forall>cr cb. trim_string (sscanf_section (strip_eol l) cr) = trim_string (sscanf_section l cb)) \<or>
         (\<forall>cr cb. sscanf_section (strip_eol l) cr = cr \<and> sscanf_section l cb = cb) \<or>
         (\<forall>cr cb. sscanf_section (strip_eol l) cr = cr \<and> trim_string (sscanf_section l cb) = [])"
proof -
  from assms(1) obtain t where l: "l = strip_eol l @ t"
    and t: "t = [CHR 0x0A] \<or> t = [CHR 0x0D, CHR 0x0A]" by (rule text_line_parts)
  define b where "b = strip_eol l"
  define P where "P = (\<lambda>c. c \<noteq> CHR '']'')"
  define nr where "nr = take 127 (takeWhile P (tl b))"
  define nb where "nb = take 127 (takeWhile P (tl l))"
  have lb: "l = b @ t" using l by (simp add: b_def)
  have "is_header b" using assms by (simp add: b_def text_line_header)
  then have bne: "b \<noteq> []" by (auto simp: is_header_def)
  then have tll: "tl l = tl b @ t" using lb by (metis tl_append2)
  have tP: "\<forall>c\<in>set t. P c" using t by (auto simp: P_def)
  have tT: "\<forall>c\<in>set t. is_trail c" using t by auto
  have sr: "sscanf_section (strip_eol l) cr = (if nr = [] then cr else nr)" for cr
    by (simp add: sscanf_section_def nr_def b_def P_def)
  have sb: "sscanf_section l cb = (if nb = [] then cb else nb)" for cb
    by (simp add: sscanf_section_def nb_def P_def)
  show ?thesis
  proof (cases "\<exists>x\<in>set (tl b). \<not> P x")
    case True
    then obtain x where "x \<in> set (tl b)" "\<not> P x" by blast
    then have "takeWhile P (tl b @ t) = takeWhile P (tl b)" by (rule takeWhile_append1)
    then have "nb = nr" by (simp add: nb_def nr_def tll)
    then show ?thesis unfolding sr sb by (cases "nr = []") simp_all
  next
    case False
    then have a: "takeWhile P (tl b) = tl b" by simp
    from False tP have c: "takeWhile P (tl b @ t) = tl b @ t" by auto
    show ?thesis
    proof (cases "tl b = []")
      case True
      then have "nr = []" by (simp add: nr_def)
      moreover have "nb = t" using True c t by (auto simp: nb_def tll)
      moreover have "trim_string ([] @ t) = trim_string []" using tT by (rule trim_string_append_trail)
      moreover have "t \<noteq> []" using t by auto
      ultimately show ?thesis unfolding sr sb by simp
    next
      case False
      then have n1: "nr \<noteq> []" by (simp add: nr_def a)
      have nb: "nb = nr @ take (127 - length (tl b)) t" by (simp add: nb_def nr_def tll a c)
      with n1 have n2: "nb \<noteq> []" by simp
      have "\<forall>c\<in>set (take (127 - length (tl b)) t). is_trail c"
        using tT by (meson in_set_takeD)
      then have "trim_string nb = trim_string nr"
        unfolding nb by (rule trim_string_append_trail)
      with n1 n2 show ?thesis unfolding sr sb by simp
    qed
  qed
qed

lemma reader_agrees_context:
  "reader_agrees S i c st \<Longrightarrow> S \<noteq> [] \<Longrightarrow> i \<longleftrightarrow> (in_section st \<and> current_section st = S)"
  by (auto simp: reader_agrees_def split: if_splits)

lemma reader_agrees_entries:
  "reader_agrees S i c (st\<lparr>entries := es\<rparr>) = reader_agrees S i c st"
  by (simp add: reader_agrees_def)

lemma reader_agrees_header:
  assumes "reader_agrees S i c st" and "text_line l" and "is_header l" and "S \<noteq> []"
    and "\<not> (in_section st \<and> current_section st = S)"
  shows "reader_agrees S (trim_string (sscanf_section (strip_eol l) c) = S)
           (trim_string (sscanf_section (strip_eol l) c))
           \<lparr>in_section = True,
            current_section = trim_string (sscanf_section l (current_section st)),
            entries = es\<rparr>"
proof -
  from assms(1) have tc: "trim_string c = c" and tb: "trim_string (current_section st) = current_section st"
    and ic: "i \<longleftrightarrow> c = S"
    and rel: "if in_section st then (c = S \<longleftrightarrow> current_section st = S)
              else c = [] \<and> current_section st = []"
    by (simp_all add: reader_agrees_def)
  from rel assms(4,5) have cS: "c \<noteq> S" by (auto split: if_splits)
  from header_names_agree[OF assms(2,3)] consider
      (same) "trim_string (sscanf_section (strip_eol l) c) =
              trim_string (sscanf_section l (current_section st))"
    | (fail) "sscanf_section (strip_eol l) c = c"
             "sscanf_section l (current_section st) = current_section st"
    | (bare) "sscanf_section (strip_eol l) c = c"
             "trim_string (sscanf_section l (current_section st)) = []"
    by blast
  then show ?thesis
  proof cases
    case same
    then show ?thesis by (simp add: reader_agrees_def)
  next
    case fail
    with tc tb rel show ?thesis by (auto simp: reader_agrees_def split: if_splits)
  next
    case bare
    with tc cS assms(4) show ?thesis by (auto simp: reader_agrees_def)
  qed
qed

subsection \<open>The first entry for the key\<close>

lemma find_append_missing_keys:
  "sec \<noteq> S \<Longrightarrow>
   find (\<lambda>e. section e = S \<and> key e = K) (snd (append_missing_keys sec es)) =
   find (\<lambda>e. section e = S \<and> key e = K) es"
  by (induction es) (auto split: prod.splits)

lemma pending_append_missing_keys:
  "pending S K es v \<Longrightarrow> sec \<noteq> S \<Longrightarrow> pending S K (snd (append_missing_keys sec es)) v"
  by (simp add: pending_def find_append_missing_keys)

lemma find_mark_other:
  "\<not> (section (es ! i) = S \<and> key (es ! i) = K) \<Longrightarrow>
   find (\<lambda>e. section e = S \<and> key e = K) (es[i := (es ! i)\<lparr>updated := b\<rparr>]) =
   find (\<lambda>e. section e = S \<and> key e = K) es"
  by (induction es arbitrary: i) (auto split: nat.splits)

lemma pending_mark_other:
  "pending S K es v \<Longrightarrow> \<not> (section (es ! i) = S \<and> key (es ! i) = K) \<Longrightarrow>
   pending S K (es[i := (es ! i)\<lparr>updated := b\<rparr>]) v"
  by (simp add: pending_def find_mark_other)

lemma find_match_find:
  "find_match sec k es = Some i \<Longrightarrow> find (\<lambda>e. section e = sec \<and> key e = k) es = Some (es ! i)"
proof (induction es arbitrary: i)
  case Nil
  then show ?case by simp
next
  case (Cons e es)
  then show ?case by (cases "section e = sec \<and> key e = k") auto
qed

lemma pending_Cons:
  "pending S K (e # es) v \<longleftrightarrow>
     (if section e = S \<and> key e = K then \<not> updated e \<and> value e = v else pending S K es v)"
  by (auto simp: pending_def)

subsection \<open>Appended lines under the reader\<close>

lemma read_loop_flush_found:
  assumes "pending S K es v" and "\<forall>e\<in>set es. entry_ok e" and "key_ok K" and "value_reads v n"
  shows "read_loop S K n True c (fst (append_missing_keys S es) @ rest) = Some v"
  using assms(1,2)
proof (induction es)
  case Nil
  then show ?case by (simp add: pending_def)
next
  case (Cons e es)
  obtain out es' where a: "append_missing_keys S es = (out, es')"
    by (cases "append_missing_keys S es")
  from Cons.prems(2) have ok: "key_ok (key e)" "plain (value e)"
    by (simp_all add: entry_ok_def value_ok_def)
  show ?case
  proof (cases "section e = S \<and> key e = K")
    case True
    with Cons.prems(1) have "\<not> updated e" "value e = v" by (simp_all add: pending_Cons)
    with True a show ?thesis
      by (simp add: read_loop_kv_hit[OF assms(3,4)])
  next
    case False
    with Cons.prems(1) have "pending S K es v" by (simp add: pending_Cons)
    with Cons.IH Cons.prems(2) a have ih: "read_loop S K n True c (out @ rest) = Some v" by simp
    show ?thesis
    proof (cases "\<not> updated e \<and> section e = S")
      case True
      with False have "\<not> (True \<and> key e = K)" by simp
      from read_loop_kv_other[OF ok this] True a ih show ?thesis by simp
    next
      case False
      with a ih show ?thesis by auto
    qed
  qed
qed

lemma read_loop_flush_skip:
  assumes "\<forall>e\<in>set es. entry_ok e"
  shows "read_loop S K n False c (fst (append_missing_keys sec es) @ rest) =
         read_loop S K n False c rest"
  using assms
proof (induction es)
  case Nil
  then show ?case by simp
next
  case (Cons e es)
  obtain out es' where a: "append_missing_keys sec es = (out, es')"
    by (cases "append_missing_keys sec es")
  from Cons.prems have ok: "key_ok (key e)" "plain (value e)"
    by (simp_all add: entry_ok_def value_ok_def)
  have "\<not> (False \<and> key e = K)" by simp
  from read_loop_kv_other[OF ok this] Cons a show ?case by auto
qed

lemma same_keys_entry_ok:
  assumes "same_keys es es'" and "\<forall>e\<in>set es. entry_ok e"
  shows "\<forall>e\<in>set es'. entry_ok e"
proof -
  define ok3 where "ok3 = (\<lambda>t :: string \<times> string \<times> string.
      section_ok (fst t) \<and> key_ok (fst (snd t)) \<and> value_ok (snd (snd t)))"
  have eq: "entry_ok e \<longleftrightarrow> ok3 (section e, key e, value e)" for e
    by (simp add: entry_ok_def ok3_def)
  have "set (map (\<lambda>e. (section e, key e, value e)) es') =
        set (map (\<lambda>e. (section e, key e, value e)) es)"
    using assms(1) by (simp add: same_keys_def)
  then have "(\<lambda>e. (section e, key e, value e)) ` set es' =
             (\<lambda>e. (section e, key e, value e)) ` set es" by simp
  moreover have "\<forall>t\<in>(\<lambda>e. (section e, key e, value e)) ` set es. ok3 t"
    using assms(2) by (simp add: eq)
  ultimately have "\<forall>t\<in>(\<lambda>e. (section e, key e, value e)) ` set es'. ok3 t" by simp
  then show ?thesis by (simp add: eq)
qed

lemma batch_line_entry_ok:
  assumes "\<forall>e\<in>set (entries st). entry_ok e"
  shows "\<forall>e\<in>set (entries (snd (batch_line st l))). entry_ok e"
  using same_keys_entry_ok[OF batch_line_same_keys[OF same_keys_refl] assms] .

lemma pending_target:
  "pending S K es v \<Longrightarrow> \<exists>e\<in>set es. section e = S \<and> key e = K"
  by (auto simp: pending_def find_Some_iff)

lemma read_step:
  assumes inv: "reader_agrees S i c st" and pend: "pending S K (entries st) v"
    and ok: "\<forall>e\<in>set (entries st). entry_ok e"
    and l: "text_line l" and S: "section_ok S" and K: "key_ok K" and v: "value_reads v n"
    and s: "batch_line st l = (ps, st')"
  shows "(\<forall>rest. read_loop S K n i c (ps @ rest) = Some v) \<or>
         (\<exists>i' c'. reader_agrees S i' c' st' \<and> pending S K (entries st') v \<and>
                  (\<forall>rest. read_loop S K n i c (ps @ rest) = read_loop S K n i' c' rest))"
proof -
  have Sne: "S \<noteq> []" using S by (simp add: section_ok_def)
  note ctx = reader_agrees_context[OF inv Sne]
  define es where "es = entries st"
  define cur where "cur = current_section st"
  show ?thesis
  proof (cases rule: batch_line_cases[where l = l and st = st])
    case header
    define fl where "fl = (if in_section st then append_missing_keys cur es else ([], es))"
    from header s have ps: "ps = fst fl @ [l]"
      and st': "st' = \<lparr>in_section = True,
                       current_section = trim_string (sscanf_section l cur),
                       entries = snd fl\<rparr>"
      by (auto simp: batch_line_header fl_def cur_def es_def)
    show ?thesis
    proof (cases "in_section st \<and> cur = S")
      case True
      then have "fst fl = fst (append_missing_keys S es)" by (simp add: fl_def)
      moreover have "read_loop S K n True c (fst (append_missing_keys S es) @ r) = Some v" for r
        using pend ok K v unfolding es_def by (rule read_loop_flush_found)
      moreover have "i" using ctx True by (simp add: cur_def)
      ultimately have "\<forall>rest. read_loop S K n i c (ps @ rest) = Some v"
        by (simp add: ps)
      then show ?thesis by blast
    next
      case False
      then have ni: "\<not> i" using ctx by (simp add: cur_def)
      have a: "read_loop S K n False c (fst fl @ r) = read_loop S K n False c r" for r
        using read_loop_flush_skip[OF ok[folded es_def], of S K n c cur r]
        by (simp add: fl_def)
      define c' where "c' = trim_string (sscanf_section (strip_eol l) c)"
      have hr: "is_header (strip_eol l)" using header l by (simp add: text_line_header)
      have b: "read_loop S K n False c (l # r) = read_loop S K n (c' = S) c' r" for r
        using read_loop_header[OF hr, of S K n False c r] by (simp add: c'_def)
      have r: "\<forall>rest. read_loop S K n i c (ps @ rest) = read_loop S K n (c' = S) c' rest"
        using ni a b by (simp add: ps)
      have "reader_agrees S (c' = S) c' st'"
        unfolding c'_def st' cur_def
        using inv l header Sne False[unfolded cur_def] by (rule reader_agrees_header)
      moreover have "pending S K (entries st') v"
      proof (cases "in_section st")
        case True
        with False have "cur \<noteq> S" by simp
        with pend True show ?thesis
          by (simp add: st' fl_def es_def pending_append_missing_keys)
      next
        case False
        with pend show ?thesis by (simp add: st' fl_def es_def)
      qed
      ultimately show ?thesis using r by blast
    qed
  next
    case (match j)
    from find_match_Some[OF match(4)] have j: "j < length es" and sj: "section (es ! j) = cur"
      and kj: "key (es ! j) = file_key l" by (simp_all add: es_def cur_def)
    define kv where "kv = key_value_line (key (es ! j)) (value (es ! j))"
    from match s have ps: "ps = [kv]"
      and st': "st' = st\<lparr>entries := es[j := (es ! j)\<lparr>updated := True\<rparr>]\<rparr>"
      by (auto simp: batch_line_match kv_def es_def)
    from j ok have okj: "entry_ok (es ! j)" by (simp add: es_def)
    then have kok: "key_ok (key (es ! j))" and vok: "plain (value (es ! j))"
      by (simp_all add: entry_ok_def value_ok_def)
    show ?thesis
    proof (cases "cur = S \<and> file_key l = K")
      case True
      then have it: "i" using ctx match(2) by (simp add: cur_def)
      from find_match_find[OF match(4)] True
      have "find (\<lambda>e. section e = S \<and> key e = K) es = Some (es ! j)"
        by (simp add: es_def cur_def)
      with pend have "value (es ! j) = v" by (simp add: pending_def es_def)
      with True kj have "kv = key_value_line K v" by (simp add: kv_def)
      with it read_loop_kv_hit[OF K v] have "\<forall>rest. read_loop S K n i c (ps @ rest) = Some v"
        by (simp add: ps)
      then show ?thesis by blast
    next
      case False
      with sj kj have nt: "\<not> (section (es ! j) = S \<and> key (es ! j) = K)" by simp
      have "\<not> (i \<and> key (es ! j) = K)"
        using ctx False kj by (auto simp: cur_def)
      from read_loop_kv_other[OF kok vok this]
      have r: "\<forall>rest. read_loop S K n i c (ps @ rest) = read_loop S K n i c rest"
        by (simp add: ps kv_def)
      have "reader_agrees S i c st'" using inv by (simp add: st' reader_agrees_entries)
      moreover have "pending S K (entries st') v"
        using pend nt by (simp add: st' es_def pending_mark_other)
      ultimately show ?thesis using r by blast
    qed
  next
    case copy
    from copy s have ps: "ps = [l]" and st': "st' = st" by (auto simp: batch_line_copy)
    have nh: "\<not> is_header (strip_eol l)" using copy(1) l by (simp add: text_line_header)
    have "\<not> (i \<and> has_eq (strip_eol l) \<and> file_key (strip_eol l) = K)"
    proof
      assume a: "i \<and> has_eq (strip_eol l) \<and> file_key (strip_eol l) = K"
      then have h: "has_eq l" using l by (simp add: text_line_has_eq)
      with a l have k: "file_key l = K" by (simp add: text_line_key)
      from a ctx have "in_section st" "current_section st = S" by simp_all
      with copy(2) h k have "find_match S K (entries st) = None" by simp
      with pending_target[OF pend] show False by (simp add: find_match_None)
    qed
    from read_loop_skip[OF nh this]
    have "\<forall>rest. read_loop S K n i c (ps @ rest) = read_loop S K n i c rest" by (simp add: ps)
    with inv pend st' show ?thesis by blast
  qed
qed

lemma read_loop_batch_loop:
  assumes "reader_agrees S i c st" and "pending S K (entries st) v"
    and "\<forall>e\<in>set (entries st). entry_ok e"
    and "\<forall>l\<in>set ls. text_line l" and "section_ok S" and "key_ok K" and "value_reads v n"
    and "batch_loop st ls = (ps, st')"
  shows "(\<forall>e\<in>set (entries st'). entry_ok e) \<and>
         ((\<forall>rest. read_loop S K n i c (ps @ rest) = Some v) \<or>
          (\<exists>i' c'. reader_agrees S i' c' st' \<and> pending S K (entries st') v \<and>
                   (\<forall>rest. read_loop S K n i c (ps @ rest) = read_loop S K n i' c' rest)))"
  using assms(1,2,3,4,8)
proof (induction ls arbitrary: st i c ps st')
  case Nil
  then show ?case by auto
next
  case (Cons l ls)
  obtain o1 st1 where s: "batch_line st l = (o1, st1)" by (cases "batch_line st l")
  obtain o2 st2 where r: "batch_loop st1 ls = (o2, st2)" by (cases "batch_loop st1 ls")
  from Cons.prems(5) s r have ps: "ps = o1 @ o2" and st': "st' = st2" by simp_all
  have l: "text_line l" and ls: "\<forall>l\<in>set ls. text_line l" using Cons.prems(4) by simp_all
  have ok1: "\<forall>e\<in>set (entries st1). entry_ok e"
    using batch_line_entry_ok[OF Cons.prems(3), of l] s by simp
  from read_step[OF Cons.prems(1,2,3) l assms(5,6,7) s]
  show ?case
  proof
    assume a: "\<forall>rest. read_loop S K n i c (o1 @ rest) = Some v"
    have "\<forall>e\<in>set (entries st2). entry_ok e"
      using r ok1 ls
    proof (induction ls arbitrary: st1 o2 st2)
      case Nil
      then show ?case by simp
    next
      case (Cons x xs)
      obtain p1 t1 where s1: "batch_line st1 x = (p1, t1)" by (cases "batch_line st1 x")
      obtain p2 t2 where r1: "batch_loop t1 xs = (p2, t2)" by (cases "batch_loop t1 xs")
      have "\<forall>e\<in>set (entries t1). entry_ok e"
        using batch_line_entry_ok[OF Cons.prems(2), of x] s1 by simp
      from Cons.IH[OF r1 this] Cons.prems(1,3) s1 r1 show ?case by simp
    qed
    moreover have "\<forall>rest. read_loop S K n i c (ps @ rest) = Some v"
      using a by (simp add: ps)
    ultimately show ?thesis unfolding st' by blast
  next
    assume "\<exists>i' c'. reader_agrees S i' c' st1 \<and> pending S K (entries st1) v \<and>
                  (\<forall>rest. read_loop S K n i c (o1 @ rest) = read_loop S K n i' c' rest)"
    then obtain i' c' where inv1: "reader_agrees S i' c' st1" and p1: "pending S K (entries st1) v"
      and e1: "\<forall>rest. read_loop S K n i c (o1 @ rest) = read_loop S K n i' c' rest" by blast
    from Cons.IH[OF inv1 p1 ok1 ls r]
    have ok2: "\<forall>e\<in>set (entries st2). entry_ok e"
      and d: "(\<forall>rest. read_loop S K n i' c' (o2 @ rest) = Some v) \<or>
          (\<exists>i'' c''. reader_agrees S i'' c'' st2 \<and> pending S K (entries st2) v \<and>
                   (\<forall>rest. read_loop S K n i' c' (o2 @ rest) = read_loop S K n i'' c'' rest))"
      by blast+
    have e: "read_loop S K n i c (ps @ rest) = read_loop S K n i' c' (o2 @ rest)" for rest
      using e1 by (simp add: ps)
    from d show ?thesis
    proof
      assume "\<forall>rest. read_loop S K n i' c' (o2 @ rest) = Some v"
      with e ok2 show ?thesis unfolding st' by simp
    next
      assume "\<exists>i'' c''. reader_agrees S i'' c'' st2 \<and> pending S K (entries st2) v \<and>
                   (\<forall>rest. read_loop S K n i' c' (o2 @ rest) = read_loop S K n i'' c'' rest)"
      with e ok2 show ?thesis unfolding st' by auto
    qed
  qed
qed

lemma flush_lines_whole:
  assumes "\<forall>e\<in>set es. entry_ok e" and "p \<in> set (fst (append_missing_keys sec es))"
  shows "whole_line p \<and> CHR 0x00 \<notin> set p"
proof -
  from assms(2) obtain e where "e \<in> set es" and p: "p = key_value_line (key e) (value e)"
    by (auto simp: append_missing_keys_fst)
  with assms(1) have "key_ok (key e)" "value_ok (value e)" by (simp_all add: entry_ok_def)
  with key_value_line_whole[of "key e" "value e"] p show ?thesis by simp
qed

lemma concat_map_self: "\<forall>x\<in>set xs. f x = [x] \<Longrightarrow> concat (map f xs) = xs"
  by (induction xs) auto

lemma read_lines_flush:
  assumes "\<forall>e\<in>set es. entry_ok e"
  shows "concat (map read_lines (fst (append_missing_keys sec es))) = fst (append_missing_keys sec es)"
  using flush_lines_whole[OF assms] by (intro concat_map_self) (simp add: read_lines_whole)

lemma append_missing_keys_entry_ok:
  "\<forall>e\<in>set es. entry_ok e \<Longrightarrow> \<forall>e\<in>set (snd (append_missing_keys sec es)). entry_ok e"
  using same_keys_entry_ok[OF same_keys_append_missing[OF same_keys_refl]] by blast

lemma read_loop_missing_sections:
  assumes "pending S K es v" and "\<forall>e\<in>set es. entry_ok e"
    and "section_ok S" and "key_ok K" and "value_reads v n"
  shows "read_loop S K n False c (concat (map read_lines (missing_sections es)) @ rest) = Some v"
  using assms(1,2)
proof (induction es arbitrary: c rule: missing_sections.induct)
  case 1
  then show ?case by (simp add: pending_def)
next
  case (2 e es)
  from "2.prems"(2) have oke: "entry_ok e" and okes: "\<forall>e\<in>set es. entry_ok e" by simp_all
  from oke have so: "section_ok (section e)" and ko: "key_ok (key e)" and vo: "value_ok (value e)"
    by (simp_all add: entry_ok_def)
  show ?case
  proof (cases "updated e")
    case True
    with "2.prems"(1) have "pending S K es v" by (auto simp: pending_Cons split: if_splits)
    from "2.IH"(1)[OF True this okes] True show ?thesis by simp
  next
    case False
    obtain out es' where a: "append_missing_keys (section e) es = (out, es')"
      by (cases "append_missing_keys (section e) es")
    define M where "M = concat (map read_lines (missing_sections es'))"
    define kv where "kv = key_value_line (key e) (value e)"
    have out: "out = fst (append_missing_keys (section e) es)"
      and es': "es' = snd (append_missing_keys (section e) es)" using a by simp_all
    have ro: "concat (map read_lines out) = out" unfolding out by (rule read_lines_flush[OF okes])
    have "concat (map read_lines (missing_sections (e # es))) =
            ''\<newline>'' # header_line (section e) # kv # out @ M"
      using False a ro
      by (simp add: read_lines_new_section_text[OF so ko vo] M_def kv_def)
    then have "read_loop S K n False c (concat (map read_lines (missing_sections (e # es))) @ rest) =
               read_loop S K n (section e = S) (section e) (kv # out @ M @ rest)"
      by (simp add: read_loop_empty_line read_loop_header_line[OF so])
    also have "\<dots> = Some v"
    proof (cases "section e = S")
      case True
      note sS = this
      show ?thesis
      proof (cases "key e = K")
        case True
        with sS "2.prems"(1) False have "value e = v" by (simp add: pending_Cons)
        with True sS read_loop_kv_hit[OF assms(4,5)] show ?thesis by (simp add: kv_def)
      next
        case False
        with "2.prems"(1) have p: "pending S K es v" by (simp add: pending_Cons)
        have "\<not> (True \<and> key e = K)" using False by simp
        from read_loop_kv_other[OF ko _ this, of "value e"] vo
        have "read_loop S K n True S (kv # out @ M @ rest) = read_loop S K n True S (out @ M @ rest)"
          by (simp add: kv_def value_ok_def)
        also have "\<dots> = Some v"
          unfolding out sS using p okes assms(4,5) by (rule read_loop_flush_found)
        finally show ?thesis using sS by simp
      qed
    next
      case False
      note nS = this
      with "2.prems"(1) have p: "pending S K es v" by (simp add: pending_Cons)
      have p': "pending S K es' v" unfolding es' using p nS by (rule pending_append_missing_keys)
      have ok': "\<forall>e\<in>set es'. entry_ok e" unfolding es' using okes by (rule append_missing_keys_entry_ok)
      have "\<not> (False \<and> key e = K)" by simp
      from read_loop_kv_other[OF ko _ this, of "value e"] vo
      have "read_loop S K n False (section e) (kv # out @ M @ rest) =
            read_loop S K n False (section e) (out @ M @ rest)"
        by (simp add: kv_def value_ok_def)
      also have "\<dots> = read_loop S K n False (section e) (M @ rest)"
        unfolding out by (rule read_loop_flush_skip[OF okes])
      also have "\<dots> = Some v"
        unfolding M_def using \<open>\<not> updated e\<close> a[symmetric] p' ok' by (rule "2.IH"(2))
      finally show ?thesis using nS by simp
    qed
    finally show ?thesis .
  qed
qed

lemma batch_line_pieces_ok:
  assumes "\<forall>e\<in>set (entries st). entry_ok e" and "whole_line l \<and> CHR 0x00 \<notin> set l"
    and "p \<in> set (fst (batch_line st l))"
  shows "whole_line p \<and> CHR 0x00 \<notin> set p"
proof (cases rule: batch_line_cases[where l = l and st = st])
  case header
  with assms(3) have "p = l \<or> (in_section st \<and>
      p \<in> set (fst (append_missing_keys (current_section st) (entries st))))"
    by (auto simp: batch_line_header split: if_splits)
  with assms(1,2) show ?thesis by (auto dest: flush_lines_whole)
next
  case (match i)
  from find_match_Some[OF match(4)] assms(1) have "entry_ok (entries st ! i)" by simp
  then have "key_ok (key (entries st ! i))" "value_ok (value (entries st ! i))"
    by (simp_all add: entry_ok_def)
  with match assms(3) key_value_line_whole[of "key (entries st ! i)" "value (entries st ! i)"]
  show ?thesis by (simp add: batch_line_match)
next
  case copy
  with assms show ?thesis by (simp add: batch_line_copy)
qed

lemma batch_loop_pieces_ok:
  assumes "\<forall>e\<in>set (entries st). entry_ok e" and "\<forall>l\<in>set ls. whole_line l \<and> CHR 0x00 \<notin> set l"
    and "p \<in> set (fst (batch_loop st ls))"
  shows "whole_line p \<and> CHR 0x00 \<notin> set p"
  using assms
proof (induction ls arbitrary: st)
  case Nil
  then show ?case by simp
next
  case (Cons l ls)
  obtain o1 st1 where s: "batch_line st l = (o1, st1)" by (cases "batch_line st l")
  obtain o2 st2 where r: "batch_loop st1 ls = (o2, st2)" by (cases "batch_loop st1 ls")
  have ok1: "\<forall>e\<in>set (entries st1). entry_ok e"
    using batch_line_entry_ok[OF Cons.prems(1), of l] s by simp
  from Cons.prems(3) s r have "p \<in> set o1 \<or> p \<in> set o2" by auto
  then show ?case
  proof
    assume "p \<in> set o1"
    with batch_line_pieces_ok[OF Cons.prems(1), of l p] s Cons.prems(2) show ?thesis by simp
  next
    assume "p \<in> set o2"
    with Cons.IH[OF ok1] r Cons.prems(2) show ?thesis by simp
  qed
qed

lemma missing_sections_no_nul:
  assumes "\<forall>e\<in>set es. entry_ok e" and "p \<in> set (missing_sections es)"
  shows "CHR 0x00 \<notin> set p"
  using assms
proof (induction es arbitrary: p rule: missing_sections.induct)
  case 1
  then show ?case by simp
next
  case (2 e es)
  from "2.prems"(1) have oke: "entry_ok e" and okes: "\<forall>e\<in>set es. entry_ok e" by simp_all
  show ?case
  proof (cases "updated e")
    case True
    with 2 okes show ?thesis by simp
  next
    case False
    obtain out es' where a: "append_missing_keys (section e) es = (out, es')"
      by (cases "append_missing_keys (section e) es")
    have ok': "\<forall>e\<in>set es'. entry_ok e"
      using append_missing_keys_entry_ok[OF okes, of "section e"] a by simp
    from False "2.prems"(2) a have "p = new_section_text (section e) (key e) (value e) \<or>
        p \<in> set (fst (append_missing_keys (section e) es)) \<or> p \<in> set (missing_sections es')"
      by auto
    then show ?thesis
    proof (elim disjE)
      assume "p = new_section_text (section e) (key e) (value e)"
      with oke show ?thesis
        by (simp add: new_section_text_def key_value_line_def entry_ok_def section_ok_def
                      key_ok_def value_ok_def plain_def)
    next
      assume "p \<in> set (fst (append_missing_keys (section e) es))"
      with flush_lines_whole[OF okes] show ?thesis by blast
    next
      assume "p \<in> set (missing_sections es')"
      with "2.IH"(2)[OF False a[symmetric] ok'] show ?thesis by simp
    qed
  qed
qed

lemma text_document_lines:
  assumes "text_document D"
  shows "file_lines D = read_lines D" and "\<forall>l\<in>set (read_lines D). text_line l"
    and "\<forall>l\<in>set (read_lines D). whole_line l \<and> CHR 0x00 \<notin> set l"
proof -
  show t: "\<forall>l\<in>set (read_lines D). text_line l" using assms by (simp add: text_document_def)
  then show w: "\<forall>l\<in>set (read_lines D). whole_line l \<and> CHR 0x00 \<notin> set l"
    using text_line_whole by blast
  then show "file_lines D = read_lines D"
    unfolding file_lines_def by (intro map_idI) (simp add: cstr_id)
qed

lemma find_reset:
  "find (\<lambda>e. section e = S \<and> key e = K) (map (\<lambda>e. e\<lparr>updated := False\<rparr>) es) =
   map_option (\<lambda>e. e\<lparr>updated := False\<rparr>) (find (\<lambda>e. section e = S \<and> key e = K) es)"
  by (induction es) auto

lemma read_after_batch:
  assumes "text_document D" and "\<forall>e\<in>set es. entry_ok e"
    and "find (\<lambda>e. section e = S \<and> key e = K) es = Some e1" and "value_reads (value e1) n"
  shows "read_loop S K n False [] (file_lines (batch_rewrite es D)) = Some (value e1)"
proof -
  define v where "v = value e1"
  define es0 where "es0 = map (\<lambda>e. e\<lparr>updated := False\<rparr>) es"
  define st0 where "st0 = \<lparr>in_section = False, current_section = [], entries = es0\<rparr>"
  define ls where "ls = file_lines D"
  note d = text_document_lines[OF assms(1)]
  from assms(3) have e1: "e1 \<in> set es" "section e1 = S" "key e1 = K"
    by (auto simp: find_Some_iff)
  with assms(2) have S: "section_ok S" and K: "key_ok K" by (auto simp: entry_ok_def)
  have vr: "value_reads v n" using assms(4) by (simp add: v_def)
  have "find (\<lambda>e. section e = S \<and> key e = K) es0 = Some (e1\<lparr>updated := False\<rparr>)"
    using assms(3) by (simp add: es0_def find_reset)
  then have p0: "pending S K (entries st0) v" by (simp add: pending_def st0_def v_def)
  have ok0: "\<forall>e\<in>set (entries st0). entry_ok e"
    using same_keys_entry_ok[OF same_keys_reset assms(2)] by (simp add: st0_def es0_def)
  have inv0: "reader_agrees S False [] st0"
    using S by (auto simp: reader_agrees_def st0_def section_ok_def)
  have tl: "\<forall>l\<in>set ls. text_line l" using d by (simp add: ls_def)
  have wl: "\<forall>l\<in>set ls. whole_line l \<and> CHR 0x00 \<notin> set l" using d by (simp add: ls_def)
  obtain o1 st1 where l: "batch_loop st0 ls = (o1, st1)" by (cases "batch_loop st0 ls")
  define fl where "fl = (if in_section st1 then append_missing_keys (current_section st1) (entries st1)
                         else ([], entries st1))"
  define o2 where "o2 = fst fl"
  define es2 where "es2 = snd fl"
  define o3 where "o3 = missing_sections es2"
  define L3 where "L3 = concat (map read_lines o3)"
  have P: "batch_pieces es D = o1 @ o2 @ o3"
    using l by (simp add: batch_pieces_def st0_def es0_def ls_def o2_def o3_def es2_def fl_def
                     split: prod.splits)
  from read_loop_batch_loop[OF inv0 p0 ok0 tl S K vr l]
  have ok1: "\<forall>e\<in>set (entries st1). entry_ok e"
    and dis: "(\<forall>rest. read_loop S K n False [] (o1 @ rest) = Some v) \<or>
          (\<exists>i' c'. reader_agrees S i' c' st1 \<and> pending S K (entries st1) v \<and>
                   (\<forall>rest. read_loop S K n False [] (o1 @ rest) = read_loop S K n i' c' rest))"
    by blast+
  have ok2: "\<forall>e\<in>set es2. entry_ok e"
    using ok1 append_missing_keys_entry_ok[OF ok1, of "current_section st1"]
    by (simp add: es2_def fl_def)
  have w1: "\<forall>p\<in>set o1. whole_line p \<and> CHR 0x00 \<notin> set p"
    using batch_loop_pieces_ok[OF ok0 wl] l by simp
  have w2: "\<forall>p\<in>set o2. whole_line p \<and> CHR 0x00 \<notin> set p"
    using flush_lines_whole[OF ok1, of _ "current_section st1"] by (simp add: o2_def fl_def)
  have n3: "\<forall>p\<in>set o3. CHR 0x00 \<notin> set p"
    using missing_sections_no_nul[OF ok2] by (simp add: o3_def)
  have e3: "\<forall>p\<in>set o3. p \<noteq> [] \<and> last p = CHR 0x0A"
    using missing_sections_last by (simp add: o3_def)
  have lines: "file_lines (concat (o1 @ o2 @ o3)) = o1 @ o2 @ L3"
  proof -
    have "\<forall>p\<in>set (o1 @ o2 @ o3). p \<noteq> [] \<and> last p = CHR 0x0A"
      using w1 w2 e3 whole_line_last by auto
    then have "read_lines (concat (o1 @ o2 @ o3)) = concat (map read_lines (o1 @ o2 @ o3))"
      by (rule read_lines_concat)
    also have "\<dots> = concat (map read_lines o1) @ concat (map read_lines o2) @ L3"
      by (simp add: L3_def)
    also have "concat (map read_lines o1) = o1"
      using w1 by (intro concat_map_self) (simp add: read_lines_whole)
    also have "concat (map read_lines o2) = o2"
      using w2 by (intro concat_map_self) (simp add: read_lines_whole)
    finally have r: "read_lines (concat (o1 @ o2 @ o3)) = o1 @ o2 @ L3" .
    have "\<forall>x\<in>set L3. CHR 0x00 \<notin> set x"
      using n3 set_read_lines by (fastforce simp: L3_def)
    with w1 w2 have "map cstr (o1 @ o2 @ L3) = o1 @ o2 @ L3"
      by (intro map_idI) (auto simp: cstr_id)
    with r show ?thesis by (simp add: file_lines_def)
  qed
  have "read_loop S K n False [] (o1 @ o2 @ L3) = Some v"
    using dis
  proof
    assume "\<forall>rest. read_loop S K n False [] (o1 @ rest) = Some v"
    then show ?thesis by blast
  next
    assume "\<exists>i' c'. reader_agrees S i' c' st1 \<and> pending S K (entries st1) v \<and>
                   (\<forall>rest. read_loop S K n False [] (o1 @ rest) = read_loop S K n i' c' rest)"
    then obtain i' c' where inv1: "reader_agrees S i' c' st1" and p1: "pending S K (entries st1) v"
      and e: "read_loop S K n False [] (o1 @ o2 @ L3) = read_loop S K n i' c' (o2 @ L3)"
      by blast
    have Sne: "S \<noteq> []" using S by (simp add: section_ok_def)
    note ctx = reader_agrees_context[OF inv1 Sne]
    have "read_loop S K n i' c' (o2 @ L3) = Some v"
    proof (cases "in_section st1 \<and> current_section st1 = S")
      case True
      then have "o2 = fst (append_missing_keys S (entries st1))" by (simp add: o2_def fl_def)
      moreover have "i'" using ctx True by simp
      ultimately show ?thesis using read_loop_flush_found[OF p1 ok1 K vr, of c' L3] by simp
    next
      case False
      then have ni: "\<not> i'" using ctx by simp
      have "read_loop S K n False c' (o2 @ L3) = read_loop S K n False c' L3"
        using read_loop_flush_skip[OF ok1, of S K n c' "current_section st1" L3]
        by (simp add: o2_def fl_def)
      moreover have "pending S K es2 v"
      proof (cases "in_section st1")
        case True
        with False have "current_section st1 \<noteq> S" by simp
        with p1 True show ?thesis by (simp add: es2_def fl_def pending_append_missing_keys)
      next
        case False
        with p1 show ?thesis by (simp add: es2_def fl_def)
      qed
      then have "read_loop S K n False c' (L3 @ []) = Some v"
        unfolding L3_def o3_def using ok2 S K vr by (rule read_loop_missing_sections)
      ultimately show ?thesis using ni by simp
    qed
    with e show ?thesis by simp
  qed
  then show ?thesis unfolding batch_rewrite_def P lines v_def .
qed

section \<open>The atomic replacement\<close>

lemma locked_replace_cases:
  assumes "temp_file fs = None" and "flock_outcome os \<noteq> Lock_held_by_other"
  shows "\<exists>r fs'. locked_replace rw os fs = Some (r, fs') \<and>
           (r = 1 \<longleftrightarrow> (\<exists>content. config_file fs = Some content) \<and> \<not> open_fails os \<and>
                 flock_outcome os = Lock_granted \<and> \<not> fopen_read_fails os \<and>
                 \<not> fopen_temp_fails os \<and> \<not> rename_fails os) \<and>
           (r = 1 \<longrightarrow> config_file fs' = map_option rw (config_file fs) \<and> temp_file fs' = None) \<and>
           (r \<noteq> 1 \<longrightarrow> r = 0 \<and> fs' = fs)"
  using assms
  by (cases fs; cases "flock_outcome os") (auto simp: locked_replace_def Let_def split: option.splits)



text \<open>
  Claim C7 as stated fails: with the lock held by another caller the call does not
  return at all, so it does not return 0.
\<close>

theorem lock_held_no_failure_counterexample:
  "write_config_batch
     \<lparr>open_fails = False, flock_outcome = Lock_held_by_other, fopen_read_fails = False,
      fopen_temp_fails = False, rename_fails = False\<rparr>
     [\<lparr>section = ''a'', key = ''x'', value = ''2'', updated = False\<rparr>]
     \<lparr>config_file = Some ''[a]\<newline>x = 1\<newline>'', temp_file = None\<rparr> = None \<and>
   write_config_batch
     \<lparr>open_fails = False, flock_outcome = Lock_held_by_other, fopen_read_fails = False,
      fopen_temp_fails = False, rename_fails = False\<rparr>
     [\<lparr>section = ''a'', key = ''x'', value = ''2'', updated = False\<rparr>]
     \<lparr>config_file = Some ''[a]\<newline>x = 1\<newline>'', temp_file = None\<rparr>
   \<noteq> Some (0, \<lparr>config_file = Some ''[a]\<newline>x = 1\<newline>'', temp_file = None\<rparr>)"
  by (simp add: write_config_batch_def locked_replace_def)

text \<open>
  Claim C7, amended.  On an existing configuration file that can be opened:
  while another caller holds the lock the call waits in \<^verbatim>\<open>flock\<close> and does not return
  (there is no timeout); when \<^verbatim>\<open>flock\<close> itself reports an error the call returns 0 and
  the files are exactly as before.
\<close>

theorem lock_not_acquired:
  assumes "config_file fs = Some content" and "\<not> open_fails os"
  shows "(flock_outcome os = Lock_held_by_other \<longrightarrow> write_config_batch os es fs = None) \<and>
         (flock_outcome os = Lock_error \<longrightarrow> write_config_batch os es fs = Some (0, fs))"
  using assms by (simp add: write_config_batch_def locked_replace_def)

theorem lock_not_acquired_witness:
  "config_file \<lparr>config_file = Some ''[a]\<newline>x = 1\<newline>'', temp_file = None\<rparr> = Some ''[a]\<newline>x = 1\<newline>'' \<and>
   \<not> open_fails \<lparr>open_fails = False, flock_outcome = Lock_error, fopen_read_fails = False,
      fopen_temp_fails = False, rename_fails = False\<rparr> \<and>
   write_config_batch
     \<lparr>open_fails = False, flock_outcome = Lock_error, fopen_read_fails = False,
      fopen_temp_fails = False, rename_fails = False\<rparr>
     [\<lparr>section = ''a'', key = ''x'', value = ''2'', updated = False\<rparr>]
     \<lparr>config_file = Some ''[a]\<newline>x = 1\<newline>'', temp_file = None\<rparr>
   = Some (0, \<lparr>config_file = Some ''[a]\<newline>x = 1\<newline>'', temp_file = None\<rparr>)"
proof -
  let ?fs = "\<lparr>config_file = Some ''[a]\<newline>x = 1\<newline>'', temp_file = None\<rparr>"
  let ?os = "\<lparr>open_fails = False, flock_outcome = Lock_error, fopen_read_fails = False,
      fopen_temp_fails = False, rename_fails = False\<rparr>"
  have h1: "config_file ?fs = Some ''[a]\<newline>x = 1\<newline>''" by simp
  have h2: "\<not> open_fails ?os" by simp
  from lock_not_acquired[OF h1 h2,
      of "[\<lparr>section = ''a'', key = ''x'', value = ''2'', updated = False\<rparr>]"]
  show ?thesis using h1 h2 by simp
qed

section \<open>The stop, write, restart procedure\<close>

lemma stop_poll_polls:
  "length (filter (\<lambda>c. c = Pgrep) (fst (stop_poll running retries))) \<le> 50 - retries"
proof (induction running retries rule: stop_poll.induct)
  case (1 running retries)
  show ?case
  proof (cases "retries < 50 \<and> running retries")
    case True
    then have "length (filter (\<lambda>c. c = Pgrep) (fst (stop_poll running (retries + 1))))
                 \<le> 50 - (retries + 1)"
      using "1.IH" by simp
    with True show ?thesis
      by (subst stop_poll.simps) (auto split: prod.splits)
  next
    case False
    then show ?thesis by (subst stop_poll.simps) auto
  qed
qed

lemma stop_poll_gone:
  "snd (stop_poll running retries) \<longleftrightarrow> (\<exists>i. retries \<le> i \<and> i < 50 \<and> \<not> running i)"
proof (induction running retries rule: stop_poll.induct)
  case (1 running retries)
  show ?case
  proof (cases "retries < 50 \<and> running retries")
    case True
    then have ih: "snd (stop_poll running (retries + 1)) \<longleftrightarrow>
                     (\<exists>i. retries + 1 \<le> i \<and> i < 50 \<and> \<not> running i)"
      using "1.IH" by simp
    have "(\<exists>i. retries + 1 \<le> i \<and> i < 50 \<and> \<not> running i) \<longleftrightarrow>
          (\<exists>i. retries \<le> i \<and> i < 50 \<and> \<not> running i)"
      using True by (metis Suc_eq_plus1 Suc_leI le_neq_implies_less nat_le_linear not_less_eq_eq)
    with ih True show ?thesis
      by (subst stop_poll.simps) (auto split: prod.splits)
  next
    case False
    then show ?thesis by (subst stop_poll.simps) auto
  qed
qed

lemma stop_poll_no_kill: "Killall_9 \<notin> set (fst (stop_poll running retries))"
proof (induction running retries rule: stop_poll.induct)
  case (1 running retries)
  show ?case
  proof (cases "retries < 50 \<and> running retries")
    case True
    with "1.IH" show ?thesis
      by (subst stop_poll.simps) (auto split: prod.splits)
  next
    case False
    then show ?thesis by (subst stop_poll.simps) auto
  qed
qed

lemma stop_rkipc_bounded:
  "length (filter (\<lambda>c. c = Pgrep) (stop_rkipc running)) \<le> 50"
  using stop_poll_polls[of running 0]
  by (auto simp: stop_rkipc_def split: prod.splits)

lemma stop_rkipc_forced:
  "Killall_9 \<in> set (stop_rkipc running) \<longleftrightarrow> (\<forall>i<50. running i)"
proof -
  obtain cmds gone where p: "stop_poll running 0 = (cmds, gone)"
    by (cases "stop_poll running 0")
  from stop_poll_gone[of running 0] p have g: "gone \<longleftrightarrow> (\<exists>i<50. \<not> running i)" by simp
  from stop_poll_no_kill[of running 0] p have k: "Killall_9 \<notin> set cmds" by simp
  from p g k show ?thesis by (auto simp: stop_rkipc_def)
qed

lemma write_config_batch_result:
  "write_config_batch os es fs = Some (r, fs') \<Longrightarrow> r = 0 \<or> r = 1"
  by (auto simp: write_config_batch_def locked_replace_def Let_def
           split: option.splits if_splits flock_outcome.splits)

text \<open>
  Claim C9.  For a request with at least one valid update, whatever the polls of the
  stop step find and whatever the launch of the service returns:
  \<^verbatim>\<open>handle_config_update\<close> answers exactly when \<^verbatim>\<open>write_config_batch\<close> returns, it
  answers success when that call returned 1 and failure when it returned 0, and the files
  are the ones that call left.  The stop step runs \<^verbatim>\<open>pgrep\<close> at most 50 times, and it
  runs the forced kill exactly when all 50 polls still found the process.
\<close>

theorem handle_config_update_reports_write:
  assumes "updates \<noteq> []"
  shows "(handle_config_update running os launch_status updates fs = None \<longleftrightarrow>
            write_config_batch os updates fs = None) \<and>
         (\<forall>success fs'. write_config_batch os updates fs = Some (success, fs') \<longrightarrow>
            handle_config_update running os launch_status updates fs =
              Some (if success = 1 then Saved (length updates) else Write_failed,
                    stop_rkipc running @ [Launch_rkipc], fs')) \<and>
         length (filter (\<lambda>c. c = Pgrep) (stop_rkipc running)) \<le> 50 \<and>
         (Killall_9 \<in> set (stop_rkipc running) \<longleftrightarrow> (\<forall>i<50. running i))"
proof -
  have a: "handle_config_update running os launch_status updates fs = None \<longleftrightarrow>
            write_config_batch os updates fs = None"
    using assms by (auto simp: handle_config_update_def Let_def split: option.splits)
  have b: "\<forall>success fs'. write_config_batch os updates fs = Some (success, fs') \<longrightarrow>
            handle_config_update running os launch_status updates fs =
              Some (if success = 1 then Saved (length updates) else Write_failed,
                    stop_rkipc running @ [Launch_rkipc], fs')"
    using assms by (auto simp: handle_config_update_def Let_def dest: write_config_batch_result)
  from a b stop_rkipc_bounded stop_rkipc_forced show ?thesis by blast
qed

text \<open>
  The process is still there at the first two polls and gone at the third; the rename
  fails.  The answer is the failure of the write.
\<close>

theorem handle_config_update_reports_write_witness:
  "[\<lparr>section = ''a'', key = ''x'', value = ''2'', updated = False\<rparr>] \<noteq> [] \<and>
   handle_config_update (\<lambda>i. i < 2)
     \<lparr>open_fails = False, flock_outcome = Lock_granted, fopen_read_fails = False,
      fopen_temp_fails = False, rename_fails = True\<rparr> 0
     [\<lparr>section = ''a'', key = ''x'', value = ''2'', updated = False\<rparr>]
     \<lparr>config_file = Some ''[a]\<newline>x = 1\<newline>'', temp_file = None\<rparr>
   = Some (Write_failed, [Killall, Pgrep, Usleep, Pgrep, Usleep, Pgrep, Launch_rkipc],
           \<lparr>config_file = Some ''[a]\<newline>x = 1\<newline>'', temp_file = None\<rparr>)"
proof -
  let ?es = "[\<lparr>section = ''a'', key = ''x'', value = ''2'', updated = False\<rparr>]"
  let ?fs = "\<lparr>config_file = Some ''[a]\<newline>x = 1\<newline>'', temp_file = None\<rparr>"
  let ?os = "\<lparr>open_fails = False, flock_outcome = Lock_granted, fopen_read_fails = False,
      fopen_temp_fails = False, rename_fails = True\<rparr>"
  have h: "?es \<noteq> []" by simp
  have w: "write_config_batch ?os ?es ?fs = Some (0, ?fs)"
    by (simp add: write_config_batch_def locked_replace_def)
  have s: "stop_rkipc (\<lambda>i. i < 2) = [Killall, Pgrep, Usleep, Pgrep, Usleep, Pgrep]"
    by (simp add: stop_rkipc_def stop_poll.simps)
  from handle_config_update_reports_write[OF h, of "\<lambda>i. i < 2" ?os 0 ?fs] w s
  show ?thesis by simp
qed

section \<open>Sections that the document does not have\<close>



section \<open>Single-key update and batch update on a repeated key\<close>



section \<open>Lines that an update does not touch\<close>

text \<open>
  Claim C4 as stated fails.  In the first document the second line has 511 bytes before
  \<open>x=1\<close>, more than one call of \<^verbatim>\<open>fgets\<close> reads into \<^verbatim>\<open>char line[512]\<close>.  Its key is
  not \<open>x\<close>, so it is no target of the entry \<open>(a, x, 2)\<close>; the loop takes its end
  \<open>x=1\<close> for a line of its own and replaces it, and the line is not a line of the
  output.  The second document does not end with a newline; the entry adds the key \<open>y\<close>
  to section \<open>a\<close>.  The line \<open>x = 1\<close> is no target of the batch, and it is not a line
  of the output: the new key is written onto its end.
\<close>

theorem untouched_lines_kept_counterexample:
  "replicate 511 (CHR ''#'') @ ''x=1\<newline>''
     \<in> set (doc_lines (''[a]\<newline>'' @ replicate 511 (CHR ''#'') @ ''x=1\<newline>'')) \<and>
   file_key (replicate 511 (CHR ''#'') @ ''x=1\<newline>'') \<noteq> ''x'' \<and>
   batch_rewrite [\<lparr>section = ''a'', key = ''x'', value = ''2'', updated = False\<rparr>]
     (''[a]\<newline>'' @ replicate 511 (CHR ''#'') @ ''x=1\<newline>'') =
     ''[a]\<newline>'' @ replicate 511 (CHR ''#'') @ ''x = 2\<newline>'' \<and>
   replicate 511 (CHR ''#'') @ ''x=1\<newline>''
     \<notin> set (doc_lines (batch_rewrite
              [\<lparr>section = ''a'', key = ''x'', value = ''2'', updated = False\<rparr>]
              (''[a]\<newline>'' @ replicate 511 (CHR ''#'') @ ''x=1\<newline>''))) \<and>
   ''x = 1'' \<in> set (doc_lines ''[a]\<newline>x = 1'') \<and>
   ''x = 1'' \<in> set (untouched [\<lparr>section = ''a'', key = ''y'', value = ''2'', updated = False\<rparr>]
                        False [] (file_lines ''[a]\<newline>x = 1'')) \<and>
   batch_rewrite [\<lparr>section = ''a'', key = ''y'', value = ''2'', updated = False\<rparr>]
     ''[a]\<newline>x = 1'' = ''[a]\<newline>x = 1y = 2\<newline>'' \<and>
   ''x = 1'' \<notin> set (doc_lines (batch_rewrite
                        [\<lparr>section = ''a'', key = ''y'', value = ''2'', updated = False\<rparr>]
                        ''[a]\<newline>x = 1''))"
proof -
  define L where "L = replicate 511 (CHR ''#'')"
  define e where "e = \<lparr>section = ''a'', key = ''x'', value = ''2'', updated = False\<rparr>"
  have len: "length L = 511" and nl: "CHR 0x0A \<notin> set L" and nul: "CHR 0x00 \<notin> set L"
    and eq: "CHR ''='' \<notin> set L"
    by (simp_all add: L_def)
  have hd: "L = CHR ''#'' # replicate 510 (CHR ''#'')"
    unfolding L_def by (simp add: replicate_Suc[symmetric] del: replicate_Suc)
  have r3: "read_lines ''x=1\<newline>'' = [''x=1\<newline>'']"
    by (simp add: read_lines.simps)
  have r2: "read_lines (L @ ''x=1\<newline>'') = [L, ''x=1\<newline>'']"
    using fgets_full[OF nl len, of "''x=1\<newline>''"] r3 hd
    by (subst read_lines.simps) simp
  have r1: "read_lines (''[a]\<newline>'' @ L @ ''x=1\<newline>'') = [''[a]\<newline>'', L, ''x=1\<newline>'']"
    using read_lines_append[of "''[a]\<newline>''" "L @ ''x=1\<newline>''"] r2
    by (simp add: read_lines.simps)
  have "CHR 0x00 \<notin> set (''[a]\<newline>'' @ L @ ''x=1\<newline>'')"
    using nul by simp
  then have fl: "file_lines (''[a]\<newline>'' @ L @ ''x=1\<newline>'') = [''[a]\<newline>'', L, ''x=1\<newline>'']"
    unfolding r1[symmetric] by (rule file_lines_text)
  have h: "\<not> is_header L" by (subst hd) (simp add: is_header_def)
  have q: "\<not> has_eq L" using eq by (simp add: has_eq_def)
  have out: "batch_rewrite [e] (''[a]\<newline>'' @ L @ ''x=1\<newline>'') = ''[a]\<newline>'' @ L @ ''x = 2\<newline>''"
    unfolding batch_rewrite_def batch_pieces_def fl e_def
    using h q
    by (simp add: batch_line_def is_header_def has_eq_def file_key_def trim_string_def
          is_lead_def is_trail_def sscanf_section_def key_value_line_def)
  have d1: "doc_lines (''[a]\<newline>'' @ L @ ''x=1\<newline>'') = [''[a]\<newline>'', L @ ''x=1\<newline>'']"
    using doc_lines_line[of "''[a]''" "L @ ''x=1\<newline>''"]
      doc_lines_line[of "L @ ''x=1''" "[]"] nl by simp
  have d2: "doc_lines (''[a]\<newline>'' @ L @ ''x = 2\<newline>'') = [''[a]\<newline>'', L @ ''x = 2\<newline>'']"
    using doc_lines_line[of "''[a]''" "L @ ''x = 2\<newline>''"]
      doc_lines_line[of "L @ ''x = 2''" "[]"] nl by simp
  have k: "file_key (L @ ''x=1\<newline>'') \<noteq> ''x''"
  proof -
    have "takeWhile (\<lambda>c. c \<noteq> CHR ''='') (L @ ''x=1\<newline>'') = L @ ''x''"
      using eq by (subst takeWhile_append2) auto
    moreover have "take 127 (L @ ''x'') = replicate 127 (CHR ''#'')"
      by (simp add: L_def)
    ultimately have "file_key (L @ ''x=1\<newline>'') = replicate 127 (CHR ''#'')"
      by (simp add: file_key_def trim_string_def is_lead_def is_trail_def
            dropWhile_replicate)
    then have "length (file_key (L @ ''x=1\<newline>'')) = 127" by simp
    then show ?thesis by auto
  qed
  have ne: "L @ ''x=1\<newline>'' \<noteq> ''[a]\<newline>''" "L @ ''x=1\<newline>'' \<noteq> L @ ''x = 2\<newline>''"
    using len by (auto dest: arg_cong[where f = length])
  have long: "L @ ''x=1\<newline>'' \<in> set (doc_lines (''[a]\<newline>'' @ L @ ''x=1\<newline>'')) \<and>
      file_key (L @ ''x=1\<newline>'') \<noteq> ''x'' \<and>
      batch_rewrite [e] (''[a]\<newline>'' @ L @ ''x=1\<newline>'') = ''[a]\<newline>'' @ L @ ''x = 2\<newline>'' \<and>
      L @ ''x=1\<newline>'' \<notin> set (doc_lines (batch_rewrite [e] (''[a]\<newline>'' @ L @ ''x=1\<newline>'')))"
    unfolding out d1 d2 using k ne by simp
  have short: "''x = 1'' \<in> set (doc_lines ''[a]\<newline>x = 1'') \<and>
   ''x = 1'' \<in> set (untouched [\<lparr>section = ''a'', key = ''y'', value = ''2'', updated = False\<rparr>]
                        False [] (file_lines ''[a]\<newline>x = 1'')) \<and>
   batch_rewrite [\<lparr>section = ''a'', key = ''y'', value = ''2'', updated = False\<rparr>]
     ''[a]\<newline>x = 1'' = ''[a]\<newline>x = 1y = 2\<newline>'' \<and>
   ''x = 1'' \<notin> set (doc_lines (batch_rewrite
                        [\<lparr>section = ''a'', key = ''y'', value = ''2'', updated = False\<rparr>]
                        ''[a]\<newline>x = 1''))"
    by (simp add: batch_eval)
  from long[unfolded L_def e_def] short show ?thesis by blast
qed

text \<open>
  Claim C4, amended.  For every batch and every document whose lines are complete (no
  NUL byte, no line longer than the 511 bytes one \<^verbatim>\<open>fgets\<close> call reads, a newline at the
  end of the last line): the lines that are not key lines in the section of an entry
  with that key are lines of the output, unmodified and in their original order.
\<close>

theorem untouched_lines_kept:
  assumes "complete_document D"
  shows "subseq (untouched es False [] (file_lines D)) (file_lines (batch_rewrite es D))"
proof -
  note d = complete_document_lines[OF assms]
  define U where "U = untouched es False [] (file_lines D)"
  define P where "P = batch_pieces es D"
  have us: "set U \<subseteq> set (read_lines D)"
    unfolding U_def d(1) by (rule untouched_subset)
  have u1: "\<forall>q\<in>set U. whole_line q"
    using us d(2) by blast
  have u2: "\<forall>q\<in>set U. CHR 0x00 \<notin> set q"
    using us d(3) by blast
  have l: "\<forall>l\<in>set (file_lines D). l \<noteq> [] \<and> last l = CHR 0x0A"
    unfolding d(1) using d(2) whole_line_last by blast
  have p: "\<forall>p\<in>set P. p \<noteq> [] \<and> last p = CHR 0x0A"
    unfolding P_def using batch_pieces_last[OF l] by blast
  have "subseq U P"
    unfolding U_def P_def by (rule subseq_untouched_pieces)
  then have "subseq U (concat (map read_lines P))"
    using u1 by (rule subseq_read_lines)
  then have "subseq U (read_lines (concat P))"
    by (simp only: read_lines_concat[OF p])
  then have "subseq (map cstr U) (map cstr (read_lines (concat P)))"
    by (rule subseq_map)
  moreover have "map cstr U = U"
    using u2 by (intro map_idI) (simp add: cstr_id)
  ultimately show ?thesis
    by (simp add: file_lines_def batch_rewrite_def U_def P_def)
qed

text \<open>Scenario C of the specification: one key added to section \<open>a\<close>, one replaced in
  section \<open>b\<close>; the three other lines stay.\<close>

theorem untouched_lines_kept_witness:
  "complete_document ''[a]\<newline>x = 1\<newline>[b]\<newline>y = 2\<newline>'' \<and>
   untouched [\<lparr>section = ''a'', key = ''z'', value = ''9'', updated = False\<rparr>,
              \<lparr>section = ''b'', key = ''y'', value = ''3'', updated = False\<rparr>] False []
     (file_lines ''[a]\<newline>x = 1\<newline>[b]\<newline>y = 2\<newline>'') = [''[a]\<newline>'', ''x = 1\<newline>'', ''[b]\<newline>''] \<and>
   subseq [''[a]\<newline>'', ''x = 1\<newline>'', ''[b]\<newline>'']
     (file_lines (batch_rewrite
        [\<lparr>section = ''a'', key = ''z'', value = ''9'', updated = False\<rparr>,
         \<lparr>section = ''b'', key = ''y'', value = ''3'', updated = False\<rparr>]
        ''[a]\<newline>x = 1\<newline>[b]\<newline>y = 2\<newline>''))"
proof -
  let ?D = "''[a]\<newline>x = 1\<newline>[b]\<newline>y = 2\<newline>''"
  let ?es = "[\<lparr>section = ''a'', key = ''z'', value = ''9'', updated = False\<rparr>,
              \<lparr>section = ''b'', key = ''y'', value = ''3'', updated = False\<rparr>]"
  have h: "complete_document ?D"
    by (simp add: complete_document_def complete_line_def read_lines.simps)
  have u: "untouched ?es False [] (file_lines ?D) = [''[a]\<newline>'', ''x = 1\<newline>'', ''[b]\<newline>'']"
    by (simp add: text_eval)
  from untouched_lines_kept[OF h, of ?es] show ?thesis
    using h u by simp
qed

section \<open>Applying an update twice\<close>




section \<open>Lines with the updated key\<close>





section \<open>Reading after an update\<close>




section \<open>Several entries for one key\<close>




end
